theory Spec2Isabelle
  imports Main "HOL-Library.Sublist" "HOL-Library.List_Lexorder" "HOL-Library.Char_ord"
begin

section \<open>JavaScript strings\<close>

text \<open>
  A JavaScript string is a sequence of UTF-16 code units. The regular expressions of
  the citation guard carry no \<^verbatim>\<open>u\<close> flag, so they work on code units as well. A code
  unit is modelled by its number (below 65536); the definitions only compare code units
  and never compute with them.
\<close>

type_synonym cu = nat
type_synonym jsstring = "cu list"

definition asc :: "string \<Rightarrow> jsstring" where
  "asc s = map of_char s"

text \<open>
  The class \<^verbatim>\<open>\s\<close>, which is also what \<^verbatim>\<open>String.prototype.trim\<close> strips: the
  white space and line terminator code points of ECMAScript.
\<close>

definition is_space :: "cu \<Rightarrow> bool" where
  "is_space c \<longleftrightarrow>
     c = 0x09 \<or> c = 0x0A \<or> c = 0x0B \<or> c = 0x0C \<or> c = 0x0D \<or> c = 0x20 \<or> c = 0xA0 \<or>
     c = 0x1680 \<or> (0x2000 \<le> c \<and> c \<le> 0x200A) \<or> c = 0x2028 \<or> c = 0x2029 \<or>
     c = 0x202F \<or> c = 0x205F \<or> c = 0x3000 \<or> c = 0xFEFF"

text \<open>The class \<^verbatim>\<open>\w\<close> that decides \<^verbatim>\<open>\b\<close>: ASCII letters, digits and the underscore.\<close>

definition is_word :: "cu \<Rightarrow> bool" where
  "is_word c \<longleftrightarrow>
     (0x41 \<le> c \<and> c \<le> 0x5A) \<or> (0x61 \<le> c \<and> c \<le> 0x7A) \<or> (0x30 \<le> c \<and> c \<le> 0x39) \<or> c = 0x5F"

definition trim :: "jsstring \<Rightarrow> jsstring" where
  "trim s = rev (dropWhile is_space (rev (dropWhile is_space s)))"

text \<open>\<^verbatim>\<open>s.split(" ")\<close>: the pieces between single U+0020 code units, empty pieces kept.\<close>

fun split_sp :: "jsstring \<Rightarrow> jsstring list" where
  "split_sp [] = [[]]"
| "split_sp (c # cs) =
     (if c = 0x20 then [] # split_sp cs
      else (case split_sp cs of [] \<Rightarrow> [[c]] | p # ps \<Rightarrow> (c # p) # ps))"

text \<open>
  \<^verbatim>\<open>s.replace(pat, rep)\<close> with a string pattern: the first occurrence of \<open>pat\<close>
  is replaced, and \<open>rep\<close> is a replacement template in which \<^verbatim>\<open>$$\<close>, \<^verbatim>\<open>$&\<close>,
  \<^verbatim>\<open>$`\<close> and \<^verbatim>\<open>$'\<close> are expanded (a string pattern has no capture groups, so
  every other \<^verbatim>\<open>$\<close> is literal).
\<close>

fun find_first :: "jsstring \<Rightarrow> jsstring \<Rightarrow> (jsstring \<times> jsstring) option" where
  "find_first pat [] = (if pat = [] then Some ([], []) else None)"
| "find_first pat (c # cs) =
     (if prefix pat (c # cs) then Some ([], drop (length pat) (c # cs))
      else map_option (\<lambda>(a, b). (c # a, b)) (find_first pat cs))"

fun getSubstitution :: "jsstring \<Rightarrow> jsstring \<Rightarrow> jsstring \<Rightarrow> jsstring \<Rightarrow> jsstring" where
  "getSubstitution matched pre post [] = []"
| "getSubstitution matched pre post [c] = [c]"
| "getSubstitution matched pre post (c # d # r) =
     (if c = 0x24 then
        (if d = 0x24 then 0x24 # getSubstitution matched pre post r
         else if d = 0x26 then matched @ getSubstitution matched pre post r
         else if d = 0x60 then pre @ getSubstitution matched pre post r
         else if d = 0x27 then post @ getSubstitution matched pre post r
         else c # getSubstitution matched pre post (d # r))
      else c # getSubstitution matched pre post (d # r))"

definition js_replace :: "jsstring \<Rightarrow> jsstring \<Rightarrow> jsstring \<Rightarrow> jsstring" where
  "js_replace pat rep s =
     (case find_first pat s of
        None \<Rightarrow> s
      | Some (a, b) \<Rightarrow> a @ getSubstitution pat a b rep @ b)"

section \<open>Regular expressions with backtracking\<close>

text \<open>
  The fragment of the ECMAScript pattern language that \<^verbatim>\<open>NORM_REGEX\<close> uses: literals,
  character classes (as lists of inclusive ranges), sequence, ordered alternation,
  greedy bounded and unbounded repetition, and the word boundary.
\<close>

datatype rx =
    Lit jsstring
  | Cls "(cu \<times> cu) list"
  | Seq rx rx
  | Alt rx rx
  | Rep nat "nat option" rx
  | WordB

abbreviation Star :: "rx \<Rightarrow> rx" where "Star r \<equiv> Rep 0 None r"
abbreviation Plus :: "rx \<Rightarrow> rx" where "Plus r \<equiv> Rep 1 None r"
abbreviation Opt :: "rx \<Rightarrow> rx" where "Opt r \<equiv> Rep 0 (Some 1) r"

definition seqs :: "rx list \<Rightarrow> rx" where
  "seqs rs = foldr Seq rs (Lit [])"

text \<open>
  A position is the code unit before the cursor (none at the start of the text) and the
  input that remains.
\<close>

type_synonym pos = "cu option \<times> jsstring"

definition in_class :: "(cu \<times> cu) list \<Rightarrow> cu \<Rightarrow> bool" where
  "in_class rs c \<longleftrightarrow> list_ex (\<lambda>(lo, hi). lo \<le> c \<and> c \<le> hi) rs"

definition word_before :: "pos \<Rightarrow> bool" where
  "word_before x = (case fst x of None \<Rightarrow> False | Some c \<Rightarrow> is_word c)"

definition word_after :: "pos \<Rightarrow> bool" where
  "word_after x = (case snd x of [] \<Rightarrow> False | c # _ \<Rightarrow> is_word c)"

fun rsz :: "rx \<Rightarrow> nat" where
  "rsz (Seq a b) = Suc (rsz a + rsz b)"
| "rsz (Alt a b) = Suc (rsz a + rsz b)"
| "rsz (Rep m n r) = Suc (rsz r)"
| "rsz r = 0"

text \<open>
  \<open>ends r x\<close> lists the positions at which a match of \<open>r\<close> that starts at \<open>x\<close> can
  end, in the order in which the backtracking matcher tries them: the first alternative
  before the second, and one more iteration of a greedy repetition before stopping. The
  match that the engine reports is the head of the list. An iteration of a repetition
  that consumes nothing is dropped (every repeated body of \<^verbatim>\<open>NORM_REGEX\<close> consumes at
  least one code unit).
\<close>

function ends :: "rx \<Rightarrow> pos \<Rightarrow> pos list" where
  "ends (Lit w) x =
     (if w = [] then [x]
      else if prefix w (snd x) then [(Some (last w), drop (length w) (snd x))]
      else [])"
| "ends (Cls rs) x =
     (case snd x of
        [] \<Rightarrow> []
      | c # cs \<Rightarrow> if in_class rs c then [(Some c, cs)] else [])"
| "ends (Seq a b) x = concat (map (\<lambda>y. ends b y) (ends a x))"
| "ends (Alt a b) x = ends a x @ ends b x"
| "ends WordB x = (if word_before x \<noteq> word_after x then [x] else [])"
| "ends (Rep m n r) x =
     (if n = Some 0 then [x]
      else concat (map (\<lambda>y. ends (Rep (m - 1) (map_option (\<lambda>k. k - 1) n) r) y)
                       (filter (\<lambda>y. length (snd y) < length (snd x)) (ends r x)))
           @ (if m = 0 then [x] else []))"
  by pat_completeness auto
termination
  by (relation "measures [\<lambda>(r, x). rsz r, \<lambda>(r, x). length (snd x)]") auto

definition ends_all :: "rx \<Rightarrow> pos list \<Rightarrow> pos list" where
  "ends_all r ps = concat (map (ends r) ps)"

text \<open>
  \<^verbatim>\<open>text.match(re)\<close> for a pattern with the \<^verbatim>\<open>g\<close> flag: the matches from left to
  right, each search starting where the previous match ended (one code unit further
  after an empty match). The first argument of \<open>match_from\<close> is the code unit before the
  search position.
\<close>

function match_from :: "rx \<Rightarrow> cu option \<Rightarrow> jsstring \<Rightarrow> jsstring list" where
  "match_from r p s =
     (case ends r (p, s) of
        [] \<Rightarrow> (case s of [] \<Rightarrow> [] | c # cs \<Rightarrow> match_from r (Some c) cs)
      | e # _ \<Rightarrow>
          (let n = length s - length (snd e) in
           if n = 0 then [] # (case s of [] \<Rightarrow> [] | c # cs \<Rightarrow> match_from r (Some c) cs)
           else take n s # match_from r (Some (last (take n s))) (drop n s)))"
  by pat_completeness auto
termination
  by (relation "measure (\<lambda>(r, p, s). length s)") auto

definition match_all :: "rx \<Rightarrow> jsstring \<Rightarrow> jsstring list" where
  "match_all r s = match_from r None s"

section \<open>The citation guard\<close>

subsection \<open>The norm grammar\<close>

definition ws :: rx where "ws = Cls [(0x09, 0x0D), (0x20, 0x20), (0xA0, 0xA0), (0x1680, 0x1680),
  (0x2000, 0x200A), (0x2028, 0x2029), (0x202F, 0x202F), (0x205F, 0x205F), (0x3000, 0x3000),
  (0xFEFF, 0xFEFF)]"
definition digit :: rx where "digit = Cls [(0x30, 0x39)]"
definition letter :: rx where "letter = Cls [(0x61, 0x7A), (0x41, 0x5A)]"
definition lower :: rx where "lower = Cls [(0x61, 0x7A)]"
definition law_letter :: rx where
  "law_letter = Cls [(0x41, 0x5A), (0x61, 0x7A), (0xC4, 0xC4), (0xD6, 0xD6), (0xDC, 0xDC),
     (0xE4, 0xE4), (0xF6, 0xF6), (0xFC, 0xFC)]"
definition roman :: rx where "roman = Cls [(0x49, 0x49), (0x56, 0x56), (0x58, 0x58)]"

definition paragraph_sign :: jsstring where "paragraph_sign = [0xA7]"

text \<open>
  \<^verbatim>\<open>NORM_REGEX\<close>, one line of the definition for each group of the source pattern.
\<close>

definition NORM_REGEX :: rx where
  "NORM_REGEX = seqs
    [Alt (seqs [Lit paragraph_sign, Star ws, Plus digit, Star letter])
         (seqs [Lit (asc ''Art.''), Star ws, Plus digit, Star letter]),
     Star ws,
     Opt (seqs [Alt (Lit (asc ''Abs.'')) (Lit (asc ''Absatz'')), Star ws, Plus digit, Star letter, Star ws]),
     Opt (seqs [Lit (asc ''Satz''), Star ws, Plus digit, Star ws]),
     Opt (seqs [Alt (Lit (asc ''Nr.'')) (Lit (asc ''Nummer'')), Star ws, Plus digit, Star ws]),
     Opt (seqs [Seq (Lit (asc ''lit'')) (Opt (Lit (asc ''.''))), Star ws, lower, Star ws]),
     Opt (seqs [Alt (Lit (asc ''Buchst.'')) (Lit (asc ''Buchstabe'')), Star ws, lower, Star ws]),
     Opt (seqs [Rep 2 None law_letter,
                Opt (seqs [Star ws, Alt (Rep 1 (Some 4) roman) (Rep 1 (Some 3) digit)])]),
     WordB]"

subsection \<open>Canonical spelling\<close>

text \<open>\<^verbatim>\<open>.replace(/\s+/g, " ")\<close>: every run of white space becomes one U+0020.\<close>

function collapse_ws :: "jsstring \<Rightarrow> jsstring" where
  "collapse_ws [] = []"
| "collapse_ws (c # cs) =
     (if is_space c then 0x20 # collapse_ws (dropWhile is_space cs) else c # collapse_ws cs)"
  by pat_completeness auto
termination
  by (relation "measure length") (auto simp: le_imp_less_Suc length_dropWhile_le)

text \<open>
  \<^verbatim>\<open>.replace(/TOK\s*/g, "TOK ")\<close> for a literal token \<open>TOK\<close>: scanning from the left,
  each occurrence of the token together with the white space after it becomes the token
  and one U+0020, and the scan goes on behind the white space.
\<close>

function respace :: "jsstring \<Rightarrow> jsstring \<Rightarrow> jsstring" where
  "respace tok [] = []"
| "respace tok (c # cs) =
     (if tok \<noteq> [] \<and> prefix tok (c # cs)
      then tok @ 0x20 # respace tok (dropWhile is_space (drop (length tok) (c # cs)))
      else c # respace tok cs)"
  by pat_completeness auto
termination
proof (relation "measure (\<lambda>(tok, s). length s)")
  fix tok :: jsstring and c :: cu and cs :: jsstring
  assume "tok \<noteq> [] \<and> prefix tok (c # cs)"
  then have "0 < length tok" by simp
  moreover have "length (dropWhile is_space (drop (length tok) (c # cs)))
      \<le> length (c # cs) - length tok"
    using length_dropWhile_le [of is_space "drop (length tok) (c # cs)"] by simp
  ultimately have "length (dropWhile is_space (drop (length tok) (c # cs))) < length (c # cs)"
    by (cases tok) auto
  then show "((tok, dropWhile is_space (drop (length tok) (c # cs))), (tok, c # cs))
      \<in> measure (\<lambda>(tok, s). length s)"
    by simp
qed simp_all

definition normalizeNorm :: "jsstring \<Rightarrow> jsstring" where
  "normalizeNorm s =
     trim (respace (asc ''Buchst.'') (respace (asc ''lit.'') (respace (asc ''Satz'')
       (respace (asc ''Nr.'') (respace (asc ''Abs.'') (respace (asc ''Art.'')
         (respace paragraph_sign (collapse_ws s))))))))"

text \<open>The tokens that \<^verbatim>\<open>normalizeNorm\<close> respaces, in the order of its \<^verbatim>\<open>replace\<close> calls.\<close>

definition norm_tokens :: "jsstring list" where
  "norm_tokens = [paragraph_sign, asc ''Art.'', asc ''Abs.'', asc ''Nr.'', asc ''Satz'',
     asc ''lit.'', asc ''Buchst.'']"

text \<open>Two tokens lie apart when neither begins inside the other: no suffix of \<open>b\<close> is a
  prefix of \<open>a\<close> or has \<open>a\<close> as a prefix. The tokens above lie apart pairwise, so respacing
  one of them neither creates nor destroys an occurrence of another.\<close>

fun apart :: "jsstring \<Rightarrow> jsstring \<Rightarrow> bool" where
  "apart a [] = True"
| "apart a (c # cs) = (\<not> prefix a (c # cs) \<and> \<not> prefix (c # cs) a \<and> apart a cs)"

definition extractNorms :: "jsstring \<Rightarrow> jsstring list" where
  "extractNorms text = remdups (rev (remdups (rev (map normalizeNorm (match_all NORM_REGEX text)))))"

subsection \<open>Resolving a citation against the allowlist\<close>

text \<open>
  The allowlist is a JavaScript \<^verbatim>\<open>Set\<close>: its members in insertion order, without
  repetition. \<open>lead\<close> is the first token and, when there is a non-empty second one, a
  space and the second token.
\<close>

record resolution =
  ok :: bool
  norm :: jsstring
  replacedFrom :: "jsstring option"

definition lead :: "jsstring list \<Rightarrow> jsstring" where
  "lead parts =
     (case parts of
        [] \<Rightarrow> []
      | p0 # rest \<Rightarrow> (case rest of [] \<Rightarrow> p0 | p1 # _ \<Rightarrow> if p1 \<noteq> [] then p0 @ 0x20 # p1 else p0))"

definition candidates :: "jsstring \<Rightarrow> jsstring list \<Rightarrow> jsstring list" where
  "candidates n allowedNorms =
     filter (\<lambda>a. lead (split_sp a) = lead (split_sp n) \<and> last (split_sp a) = last (split_sp n))
       allowedNorms"

definition resolveToAllowedNorm :: "jsstring \<Rightarrow> jsstring list \<Rightarrow> resolution" where
  "resolveToAllowedNorm nrm allowedNorms =
     (let n = normalizeNorm nrm in
      if n \<in> set allowedNorms then \<lparr>ok = True, norm = n, replacedFrom = None\<rparr>
      else if candidates n allowedNorms = [] then \<lparr>ok = False, norm = n, replacedFrom = None\<rparr>
      else \<lparr>ok = True, norm = hd (sort_key length (candidates n allowedNorms)),
             replacedFrom = Some n\<rparr>)"

subsection \<open>Sanitizing an answer\<close>

definition placeholder :: jsstring where
  "placeholder =
     [0x441, 0x43E, 0x43E, 0x442, 0x432, 0x435, 0x442, 0x441, 0x442, 0x432, 0x443, 0x44E, 0x449,
      0x430, 0x44F, 0x20, 0x43D, 0x43E, 0x440, 0x43C, 0x430, 0x20, 0x28, 0x43D, 0x435, 0x20,
      0x43F, 0x43E, 0x434, 0x442, 0x432, 0x435, 0x440, 0x436, 0x434, 0x435, 0x43D, 0x430, 0x20,
      0x438, 0x441, 0x442, 0x43E, 0x447, 0x43D, 0x438, 0x43A, 0x430, 0x43C, 0x438, 0x29]"

record sanitized =
  sanitizedText :: jsstring
  removedNorms :: "jsstring list"
  replacedNorms :: "(jsstring \<times> jsstring) list"

definition set_add :: "'a \<Rightarrow> 'a list \<Rightarrow> 'a list" where
  "set_add x xs = (if x \<in> set xs then xs else xs @ [x])"

text \<open>One turn of the loop over the matches; \<open>replacedFrom\<close> counts when it is a non-empty string.\<close>

definition sanitize_step :: "jsstring list \<Rightarrow> sanitized \<Rightarrow> jsstring \<Rightarrow> sanitized" where
  "sanitize_step allowedNorms st raw =
     (let res = resolveToAllowedNorm raw allowedNorms in
      if \<not> ok res then
        st\<lparr>removedNorms := set_add (normalizeNorm raw) (removedNorms st),
           sanitizedText := js_replace raw placeholder (sanitizedText st)\<rparr>
      else (case replacedFrom res of
              None \<Rightarrow> st
            | Some f \<Rightarrow>
                if f = [] then st
                else st\<lparr>replacedNorms := replacedNorms st @ [(f, norm res)],
                        sanitizedText := js_replace raw (norm res) (sanitizedText st)\<rparr>))"

definition sanitize_loop :: "jsstring list \<Rightarrow> jsstring \<Rightarrow> jsstring list \<Rightarrow> sanitized" where
  "sanitize_loop allowedNorms text found =
     foldl (sanitize_step allowedNorms)
       \<lparr>sanitizedText = text, removedNorms = [], replacedNorms = []\<rparr> found"

definition sanitizeAnswerCitations :: "jsstring \<Rightarrow> jsstring list \<Rightarrow> sanitized" where
  "sanitizeAnswerCitations answerText allowedNorms =
     (let found = match_all NORM_REGEX answerText in
      if found = [] then \<lparr>sanitizedText = answerText, removedNorms = [], replacedNorms = []\<rparr>
      else sanitize_loop allowedNorms answerText found)"

subsection \<open>Citations used below\<close>

definition cite_823_1_BGB :: jsstring where
  "cite_823_1_BGB = paragraph_sign @ asc '' 823 Abs. 1 BGB''"

definition cite_999_BGB :: jsstring where
  "cite_999_BGB = paragraph_sign @ asc '' 999 BGB''"

definition cite_823_BGB :: jsstring where
  "cite_823_BGB = paragraph_sign @ asc '' 823 BGB''"

definition cite_823_1 :: jsstring where
  "cite_823_1 = paragraph_sign @ asc '' 823 Abs. 1''"

definition cite_12 :: jsstring where
  "cite_12 = paragraph_sign @ asc '' 12''"

definition cite_1 :: jsstring where
  "cite_1 = paragraph_sign @ asc '' 1''"

definition cite_7_SGB_II :: jsstring where
  "cite_7_SGB_II = paragraph_sign @ asc '' 7 SGB II''"

definition cite_7_1_SGB :: jsstring where
  "cite_7_1_SGB = paragraph_sign @ asc '' 7 Abs. 1 SGB''"

definition cite_7_SGB :: jsstring where
  "cite_7_SGB = paragraph_sign @ asc '' 7 SGB''"

section \<open>The chunker\<close>





section \<open>The version store and an ingestion run\<close>

datatype status = Loading | Active | Failed | Archived

record version_row =
  source_url :: "jsstring option"
  imported_at :: nat
  status :: status

record ('t, 'e) law_chunk =
  version_tag :: 't
  law :: jsstring
  section_label :: "jsstring option"
  title :: "jsstring option"
  chunk_text :: jsstring
  source :: jsstring
  embedding :: 'e

text \<open>
  The three tables: \<^verbatim>\<open>law_dataset_versions\<close> keyed by its tag,
  the value of \<^verbatim>\<open>law_dataset_meta\<close> under the key \<^verbatim>\<open>active_version_tag\<close>, and
  \<^verbatim>\<open>law_chunks\<close> in storage order. The type \<open>'t\<close> of tags is the database's text type
  with the order of its collation.
\<close>

record ('t, 'e) db =
  law_dataset_versions :: "'t \<rightharpoonup> version_row"
  active_version_tag :: "'t option"
  law_chunks :: "('t, 'e) law_chunk list"

definition empty_db :: "('t, 'e) db" where
  "empty_db = \<lparr>law_dataset_versions = Map.empty, active_version_tag = None, law_chunks = []\<rparr>"

text \<open>The statements of \<^verbatim>\<open>main\<close>, one function each.\<close>

definition beginVersion :: "'t \<Rightarrow> jsstring option \<Rightarrow> nat \<Rightarrow> ('t, 'e) db \<Rightarrow> ('t, 'e) db" where
  "beginVersion tag url now d =
     d\<lparr>law_dataset_versions := (law_dataset_versions d)
          (tag \<mapsto> \<lparr>source_url = url, imported_at = now, status = Loading\<rparr>)\<rparr>"

definition delete_chunks :: "'t \<Rightarrow> ('t, 'e) db \<Rightarrow> ('t, 'e) db" where
  "delete_chunks tag d = d\<lparr>law_chunks := filter (\<lambda>c. version_tag c \<noteq> tag) (law_chunks d)\<rparr>"

definition archive_active_others :: "'t \<Rightarrow> ('t, 'e) db \<Rightarrow> ('t, 'e) db" where
  "archive_active_others tag d =
     d\<lparr>law_dataset_versions := (\<lambda>t.
          case law_dataset_versions d t of
            None \<Rightarrow> None
          | Some r \<Rightarrow> if status r = Active \<and> t \<noteq> tag then Some (r\<lparr>status := Archived\<rparr>) else Some r)\<rparr>"

definition set_active :: "'t \<Rightarrow> ('t, 'e) db \<Rightarrow> ('t, 'e) db" where
  "set_active tag d =
     d\<lparr>law_dataset_versions := (\<lambda>t.
          if t = tag then map_option (\<lambda>r. r\<lparr>status := Active\<rparr>) (law_dataset_versions d t)
          else law_dataset_versions d t)\<rparr>"

definition set_pointer :: "'t \<Rightarrow> ('t, 'e) db \<Rightarrow> ('t, 'e) db" where
  "set_pointer tag d = d\<lparr>active_version_tag := Some tag\<rparr>"

definition commitVersion :: "'t \<Rightarrow> ('t, 'e) db \<Rightarrow> ('t, 'e) db" where
  "commitVersion tag d = set_pointer tag (set_active tag (archive_active_others tag d))"

definition markVersionFailed :: "'t \<Rightarrow> nat \<Rightarrow> ('t, 'e) db \<Rightarrow> ('t, 'e) db" where
  "markVersionFailed tag now d =
     d\<lparr>law_dataset_versions := (\<lambda>t.
          if t = tag
          then map_option (\<lambda>r. r\<lparr>status := Failed, imported_at := now\<rparr>) (law_dataset_versions d t)
          else law_dataset_versions d t)\<rparr>"

record norm_row =
  row_law :: jsstring
  row_section :: "jsstring option"
  row_title :: "jsstring option"
  row_text :: jsstring
  row_source :: jsstring

datatype ingest_error = EmbeddingsHTTP | MissingEmbedding

text \<open>
  \<^verbatim>\<open>insertRows\<close>: one \<^verbatim>\<open>INSERT\<close> for each row of the batch; a row without an
  embedding at its index raises.
\<close>

fun insertRows :: "'t \<Rightarrow> norm_row list \<Rightarrow> 'e list \<Rightarrow> ('t, 'e) db \<Rightarrow> ingest_error + ('t, 'e) db" where
  "insertRows tag [] embs d = Inr d"
| "insertRows tag (r # rs) [] d = Inl MissingEmbedding"
| "insertRows tag (r # rs) (e # es) d =
     insertRows tag rs es
       (d\<lparr>law_chunks := law_chunks d @
            [\<lparr>version_tag = tag, law = row_law r, section_label = row_section r,
              title = row_title r, chunk_text = row_text r, source = row_source r,
              embedding = e\<rparr>]\<rparr>)"

text \<open>
  The loop over the batches of one file, \<open>i\<close> the loop counter. \<open>embedBatch\<close> is the
  embedding provider: \<open>None\<close> when the request fails. A batch size of zero never advances,
  hence the option.
\<close>

partial_function (option) ingest_batches ::
  "nat \<Rightarrow> (jsstring list \<Rightarrow> 'e list option) \<Rightarrow> 't \<Rightarrow> norm_row list \<Rightarrow> nat \<Rightarrow> ('t, 'e) db
     \<Rightarrow> (ingest_error + ('t, 'e) db) option" where
  "ingest_batches batchSize embedBatch tag rows i d =
     (if i < length rows then
        (case embedBatch (map row_text (take batchSize (drop i rows))) of
           None \<Rightarrow> Some (Inl EmbeddingsHTTP)
         | Some embs \<Rightarrow>
             (case insertRows tag (take batchSize (drop i rows)) embs d of
                Inl e \<Rightarrow> Some (Inl e)
              | Inr d' \<Rightarrow> ingest_batches batchSize embedBatch tag rows (i + batchSize) d'))
      else Some (Inr d))"

text \<open>The loop over the files; each file is given by the rows that \<^verbatim>\<open>parseNormBlocks\<close> finds in it.\<close>

fun ingest_files ::
  "nat \<Rightarrow> (jsstring list \<Rightarrow> 'e list option) \<Rightarrow> 't \<Rightarrow> norm_row list list \<Rightarrow> ('t, 'e) db
     \<Rightarrow> (ingest_error + ('t, 'e) db) option" where
  "ingest_files batchSize embedBatch tag [] d = Some (Inr d)"
| "ingest_files batchSize embedBatch tag (rows # files) d =
     (case ingest_batches batchSize embedBatch tag rows 0 d of
        None \<Rightarrow> None
      | Some (Inl e) \<Rightarrow> Some (Inl e)
      | Some (Inr d') \<Rightarrow> ingest_files batchSize embedBatch tag files d')"

record 't ingest_config =
  LAW_VERSION_TAG :: 't
  LAW_SOURCE_URL :: jsstring
  replace_mode :: bool
  EMB_BATCH_SIZE :: nat

text \<open>
  \<^verbatim>\<open>main\<close>. The statements between \<^verbatim>\<open>BEGIN\<close> and \<^verbatim>\<open>COMMIT\<close> work on the database
  as the transaction sees it; \<^verbatim>\<open>COMMIT\<close> makes that state the database, and
  \<^verbatim>\<open>ROLLBACK\<close> keeps the database as it was before \<^verbatim>\<open>BEGIN\<close>. After a rollback
  \<^verbatim>\<open>markVersionFailed\<close> runs on its own connection. The result is the error that
  \<^verbatim>\<open>main\<close> rethrows, if any, and the database afterwards.
\<close>

definition transaction_body ::
  "'t ingest_config \<Rightarrow> (jsstring list \<Rightarrow> 'e list option) \<Rightarrow> nat \<Rightarrow> norm_row list list
     \<Rightarrow> ('t, 'e) db \<Rightarrow> (ingest_error + ('t, 'e) db) option" where
  "transaction_body cfg embedBatch now files d =
     (let tag = LAW_VERSION_TAG cfg;
          d1 = beginVersion tag (if LAW_SOURCE_URL cfg = [] then None else Some (LAW_SOURCE_URL cfg)) now d;
          d2 = (if replace_mode cfg then delete_chunks tag d1 else d1)
      in case ingest_files (EMB_BATCH_SIZE cfg) embedBatch tag (filter (\<lambda>rows. rows \<noteq> []) files) d2 of
           None \<Rightarrow> None
         | Some (Inl e) \<Rightarrow> Some (Inl e)
         | Some (Inr d3) \<Rightarrow> Some (Inr (commitVersion tag d3)))"

definition main ::
  "'t ingest_config \<Rightarrow> (jsstring list \<Rightarrow> 'e list option) \<Rightarrow> nat \<Rightarrow> norm_row list list
     \<Rightarrow> ('t, 'e) db \<Rightarrow> (ingest_error option \<times> ('t, 'e) db) option" where
  "main cfg embedBatch now files d =
     (if files = [] then Some (None, d)
      else case transaction_body cfg embedBatch now files d of
             None \<Rightarrow> None
           | Some (Inr d') \<Rightarrow> Some (None, d')
           | Some (Inl e) \<Rightarrow> Some (Some e, markVersionFailed (LAW_VERSION_TAG cfg) now d))"

text \<open>
  The states of the version store: the empty tables of the schema, and whatever
  \<open>beginVersion\<close>, \<open>commitVersion\<close>, \<open>markVersionFailed\<close> and writes to the chunk
  table lead to.
\<close>

inductive reachable :: "('t, 'e) db \<Rightarrow> bool" where
  reach_empty: "reachable empty_db"
| reach_begin: "reachable d \<Longrightarrow> reachable (beginVersion tag url now d)"
| reach_commit: "reachable d \<Longrightarrow> reachable (commitVersion tag d)"
| reach_fail: "reachable d \<Longrightarrow> reachable (markVersionFailed tag now d)"
| reach_chunks: "reachable d \<Longrightarrow> reachable (d\<lparr>law_chunks := cs\<rparr>)"

definition is_active :: "('t, 'e) db \<Rightarrow> 't \<Rightarrow> bool" where
  "is_active d t = (case law_dataset_versions d t of None \<Rightarrow> False | Some r \<Rightarrow> status r = Active)"

section \<open>Retrieval\<close>

text \<open>
  The query of \<^verbatim>\<open>retrieveLegalSources\<close>. \<open>effective_version\<close> is the common table
  expression of that name: the pointer's tag if a chunk carries it, else the greatest tag
  of the chunk table, else \<^verbatim>\<open>NULL\<close>.
\<close>

definition effective_version :: "('t::linorder, 'e) db \<Rightarrow> 't option" where
  "effective_version d =
     (if (\<exists>c \<in> set (law_chunks d). Some (version_tag c) = active_version_tag d)
      then active_version_tag d
      else if law_chunks d = [] then None
      else Some (Max (set (map version_tag (law_chunks d)))))"

text \<open>
  The rows the query selects, nearest first. \<open>dist\<close> is the cosine distance of a
  chunk's embedding to the query vector; the sort is stable, so equal distances keep
  storage order.
\<close>

definition query_rows ::
  "('e \<Rightarrow> 'd::linorder) \<Rightarrow> nat \<Rightarrow> jsstring list \<Rightarrow> ('t::linorder, 'e) db \<Rightarrow> ('t, 'e) law_chunk list" where
  "query_rows dist limit lawCodeFilter d =
     take limit (sort_key (\<lambda>c. dist (embedding c))
       (filter (\<lambda>c. (effective_version d = None \<or> Some (version_tag c) = effective_version d)
                   \<and> (lawCodeFilter = [] \<or> law c \<in> set lawCodeFilter))
          (law_chunks d)))"

record 's legal_source =
  src_law :: jsstring
  src_section :: "jsstring option"
  src_title :: "jsstring option"
  src_text :: jsstring
  src_source :: jsstring
  src_score :: 's

text \<open>
  A row as \<^verbatim>\<open>retrieveLegalSources\<close> returns it. The query computes the score as one
  minus the cosine distance, and the function rounds it to four decimal places; both are
  floating point operations, so \<open>score_of\<close>, the map from a distance to that rounded
  score, is a parameter.
\<close>

definition to_source :: "('d \<Rightarrow> 's) \<Rightarrow> ('e \<Rightarrow> 'd) \<Rightarrow> ('t, 'e) law_chunk \<Rightarrow> 's legal_source" where
  "to_source score_of dist c =
     \<lparr>src_law = law c, src_section = section_label c, src_title = title c,
      src_text = chunk_text c, src_source = source c, src_score = score_of (dist (embedding c))\<rparr>"

text \<open>
  \<^verbatim>\<open>retrieveLegalSources\<close>. \<open>pool\<close> is the database when \<^verbatim>\<open>DATABASE_URL\<close> is set;
  \<open>getTextEmbedding\<close> yields \<open>None\<close> when the provider request fails (the function then
  throws), \<open>Some None\<close> when the reply holds no array and \<open>Some (Some dist)\<close> with the
  distance to the query vector otherwise. \<open>topK\<close> counts when it is positive, else
  \<open>LEGAL_TOP_K\<close> is the limit. \<open>lawCodes\<close> are deduplicated after dropping empty ones.
\<close>

definition retrieveLegalSources ::
  "nat \<Rightarrow> ('d \<Rightarrow> 's) \<Rightarrow> (jsstring \<Rightarrow> ('e \<Rightarrow> 'd::linorder) option option)
     \<Rightarrow> ('t::linorder, 'e) db option
     \<Rightarrow> jsstring \<Rightarrow> int option \<Rightarrow> jsstring list \<Rightarrow> ('s legal_source list) option" where
  "retrieveLegalSources LEGAL_TOP_K score_of getTextEmbedding pool queryText topK lawCodes =
     (case pool of
        None \<Rightarrow> Some []
      | Some d \<Rightarrow>
          if queryText = [] then Some []
          else (case getTextEmbedding queryText of
                  None \<Rightarrow> None
                | Some None \<Rightarrow> Some []
                | Some (Some dist) \<Rightarrow>
                    Some (map (to_source score_of dist)
                      (query_rows dist
                         (case topK of None \<Rightarrow> LEGAL_TOP_K | Some k \<Rightarrow> if 0 < k then nat k else LEGAL_TOP_K)
                         (remdups (filter (\<lambda>l. l \<noteq> []) lawCodes)) d))))"

text \<open>
  \<^verbatim>\<open>getActiveVersionTag\<close> of the retriever in \<^verbatim>\<open>retrieveLawsPg.js\<close>, over the rows of
  \<^verbatim>\<open>law_dataset_versions\<close>: the tag of the active row imported last, and the tag
  \<^verbatim>\<open>legacy\<close>, here a parameter, when no row is active.
\<close>

definition getActiveVersionTag :: "'t \<Rightarrow> ('t \<times> version_row) list \<Rightarrow> 't" where
  "getActiveVersionTag legacy versions =
     (case rev (sort_key (\<lambda>(t, r). imported_at r) (filter (\<lambda>(t, r). status r = Active) versions)) of
        [] \<Rightarrow> legacy
      | (t, r) # _ \<Rightarrow> t)"

text \<open>
  \<^verbatim>\<open>retrieveLaws\<close>. \<open>embedQuery\<close> yields the number of dimensions of the embedding and the
  distance to it, or \<open>None\<close> when the provider fails; the function throws (\<open>None\<close>) unless
  there are 1536 dimensions. \<open>render\<close> formats the selected rows as text. An empty query
  and an empty selection both give the empty string.
\<close>

definition retrieveLaws ::
  "'t \<Rightarrow> (jsstring \<Rightarrow> (nat \<times> ('e \<Rightarrow> 'd::linorder)) option) \<Rightarrow> (('t, 'e) law_chunk list \<Rightarrow> jsstring)
     \<Rightarrow> ('t \<times> version_row) list \<Rightarrow> ('t, 'e) law_chunk list \<Rightarrow> jsstring \<Rightarrow> nat \<Rightarrow> jsstring option" where
  "retrieveLaws legacy embedQuery render versions chunks query topK =
     (if trim query = [] then Some []
      else (case embedQuery (trim query) of
              None \<Rightarrow> None
            | Some (dims, dist) \<Rightarrow>
                if dims \<noteq> 1536 then None
                else (let versionTag = getActiveVersionTag legacy versions;
                          rows = take topK (sort_key (\<lambda>c. dist (embedding c))
                                   (filter (\<lambda>c. version_tag c = versionTag) chunks))
                      in if rows = [] then Some [] else Some (render rows))))"

section \<open>A sample store and a sample run\<close>

definition tag_feb :: string where "tag_feb = ''2026-02-01''"
definition tag_mar :: string where "tag_mar = ''2026-03-01''"

definition sample_row :: norm_row where
  "sample_row = \<lparr>row_law = asc ''BGB'', row_section = Some (paragraph_sign @ asc '' 823''),
     row_title = None, row_text = asc ''Schadensersatzpflicht'', row_source = asc ''bgb.xml''\<rparr>"

definition sample_cfg :: "string ingest_config" where
  "sample_cfg = \<lparr>LAW_VERSION_TAG = tag_mar, LAW_SOURCE_URL = [], replace_mode = True,
     EMB_BATCH_SIZE = 32\<rparr>"

definition feb_chunk :: "(string, nat) law_chunk" where
  "feb_chunk = \<lparr>version_tag = tag_feb, law = asc ''BGB'', section_label = None, title = None,
     chunk_text = asc ''alt'', source = asc ''bgb.xml'', embedding = 7\<rparr>"

definition mar_chunk :: "(string, nat) law_chunk" where
  "mar_chunk = \<lparr>version_tag = tag_mar, law = asc ''BGB'',
     section_label = Some (paragraph_sign @ asc '' 823''), title = None,
     chunk_text = asc ''Schadensersatzpflicht'', source = asc ''bgb.xml'', embedding = 1\<rparr>"

definition feb_db :: "(string, nat) db" where
  "feb_db = \<lparr>law_dataset_versions =
       [tag_feb \<mapsto> \<lparr>source_url = None, imported_at = 1, status = Active\<rparr>],
     active_version_tag = Some tag_feb, law_chunks = [feb_chunk]\<rparr>"

definition mar_db :: "(string, nat) db" where
  "mar_db = \<lparr>law_dataset_versions =
       [tag_feb \<mapsto> \<lparr>source_url = None, imported_at = 1, status = Archived\<rparr>,
        tag_mar \<mapsto> \<lparr>source_url = None, imported_at = 2, status = Active\<rparr>],
     active_version_tag = Some tag_mar, law_chunks = [feb_chunk, mar_chunk]\<rparr>"

definition tag_apr :: string where "tag_apr = ''2026-04-01''"

definition stale_db :: "(string, nat) db" where
  "stale_db = \<lparr>law_dataset_versions =
       [tag_feb \<mapsto> \<lparr>source_url = None, imported_at = 1, status = Archived\<rparr>,
        tag_mar \<mapsto> \<lparr>source_url = None, imported_at = 2, status = Archived\<rparr>,
        tag_apr \<mapsto> \<lparr>source_url = None, imported_at = 3, status = Active\<rparr>],
     active_version_tag = Some tag_apr, law_chunks = [feb_chunk, mar_chunk]\<rparr>"

definition stale_versions :: "(string \<times> version_row) list" where
  "stale_versions =
     [(tag_feb, \<lparr>source_url = None, imported_at = 1, status = Archived\<rparr>),
      (tag_mar, \<lparr>source_url = None, imported_at = 2, status = Archived\<rparr>),
      (tag_apr, \<lparr>source_url = None, imported_at = 3, status = Active\<rparr>)]"

section \<open>Evaluating the matcher\<close>

declare ends.simps [simp del] match_from.simps [simp del]

lemma ends_all_Nil: "ends_all r [] = []"
  by (simp add: ends_all_def)

lemma ends_all_Cons: "ends_all r (p # ps) = ends r p @ ends_all r ps"
  by (simp add: ends_all_def)

lemma ends_Seq: "ends (Seq a b) x = ends_all b (ends a x)"
  by (simp add: ends_all_def ends.simps)

lemma ends_Rep:
  "ends (Rep m n r) x =
     (if n = Some 0 then [x]
      else ends_all (Rep (m - 1) (map_option (\<lambda>k. k - 1) n) r)
             (filter (\<lambda>y. length (snd y) < length (snd x)) (ends r x))
           @ (if m = 0 then [x] else []))"
  by (simp add: ends_all_def ends.simps)

lemmas rx_eval = ends.simps(1,2,4,5) ends_Seq ends_Rep ends_all_Nil ends_all_Cons in_class_def
  word_before_def word_after_def is_word_def ws_def digit_def letter_def lower_def
  law_letter_def roman_def seqs_def asc_def paragraph_sign_def NORM_REGEX_def match_all_def
  match_from.simps

lemma getSubstitution_plain:
  "0x24 \<notin> set rep \<Longrightarrow> getSubstitution matched pre post rep = rep"
  by (induction matched pre post rep rule: getSubstitution.induct) auto

lemma placeholder_plain: "0x24 \<notin> set placeholder"
  by (simp add: placeholder_def)

lemmas guard_eval = sanitizeAnswerCitations_def sanitize_loop_def sanitize_step_def
  resolveToAllowedNorm_def candidates_def lead_def normalizeNorm_def trim_def is_space_def
  js_replace_def set_add_def getSubstitution_plain placeholder_plain

section \<open>Facts about the matcher and the loop of the sanitizer\<close>

lemma find_first_prefix:
  "prefix pat s \<Longrightarrow> find_first pat s = Some ([], drop (length pat) s)"
  by (cases s) auto

lemma find_first_first:
  "\<forall>i<length a. \<not> prefix pat (drop i (a @ pat @ b)) \<Longrightarrow> find_first pat (a @ pat @ b) = Some (a, b)"
proof (induction a)
  case Nil
  show ?case by (simp add: find_first_prefix)
next
  case (Cons x a)
  have "\<not> prefix pat ((x # a) @ pat @ b)"
    using Cons.prems by (auto dest: spec [of _ 0])
  moreover have "\<forall>i<length a. \<not> prefix pat (drop i (a @ pat @ b))"
    using Cons.prems by (auto dest: spec [of _ "Suc i" for i])
  ultimately show ?case
    using Cons.IH by simp
qed

lemma js_replace_first:
  "\<forall>i<length a. \<not> prefix pat (drop i (a @ pat @ b)) \<Longrightarrow> 0x24 \<notin> set rep \<Longrightarrow>
   js_replace pat rep (a @ pat @ b) = a @ rep @ b"
  by (simp add: js_replace_def find_first_first getSubstitution_plain)

lemma sanitize_step_unverified:
  "normalizeNorm raw \<notin> set allowedNorms \<Longrightarrow> candidates (normalizeNorm raw) allowedNorms = [] \<Longrightarrow>
   sanitize_step allowedNorms st raw =
     st\<lparr>removedNorms := set_add (normalizeNorm raw) (removedNorms st),
        sanitizedText := js_replace raw placeholder (sanitizedText st)\<rparr>"
  by (simp add: sanitize_step_def resolveToAllowedNorm_def)

lemma sanitize_step_upgrade:
  "normalizeNorm raw \<notin> set allowedNorms \<Longrightarrow> candidates (normalizeNorm raw) allowedNorms \<noteq> [] \<Longrightarrow>
   normalizeNorm raw \<noteq> [] \<Longrightarrow>
   sanitize_step allowedNorms st raw =
     st\<lparr>replacedNorms := replacedNorms st @
           [(normalizeNorm raw, norm (resolveToAllowedNorm raw allowedNorms))],
        sanitizedText := js_replace raw (norm (resolveToAllowedNorm raw allowedNorms)) (sanitizedText st)\<rparr>"
  by (simp add: sanitize_step_def resolveToAllowedNorm_def Let_def)

lemma sanitize_step_keeps:
  "set (removedNorms st) \<subseteq> set (removedNorms (sanitize_step allowedNorms st raw))"
  "set (replacedNorms st) \<subseteq> set (replacedNorms (sanitize_step allowedNorms st raw))"
  by (auto simp: sanitize_step_def set_add_def Let_def split: option.splits)

lemma sanitize_fold_keeps:
  "set (removedNorms st) \<subseteq> set (removedNorms (foldl (sanitize_step allowedNorms) st found))"
  "set (replacedNorms st) \<subseteq> set (replacedNorms (foldl (sanitize_step allowedNorms) st found))"
proof (induction found arbitrary: st)
  case Nil
  { case 1 show ?case by simp }
  { case 2 show ?case by simp }
next
  case (Cons raw found)
  { case 1 show ?case using sanitize_step_keeps(1) Cons.IH(1) by (fastforce simp del: set_simps) }
  { case 2 show ?case using sanitize_step_keeps(2) Cons.IH(2) by (fastforce simp del: set_simps) }
qed

lemma hd_sort_key_least:
  assumes "xs \<noteq> []"
  shows "hd (sort_key f xs) \<in> set xs" and "\<forall>x \<in> set xs. f (hd (sort_key f xs)) \<le> f x"
proof -
  obtain y ys where ys: "sort_key f xs = y # ys"
    using assms by (cases "sort_key f xs") (auto dest: arg_cong [where f = length])
  have "set (y # ys) = set xs" using ys [symmetric] by simp
  then show "hd (sort_key f xs) \<in> set xs" using ys by auto
  have "sorted (map f (y # ys))" using ys [symmetric] by simp
  then show "\<forall>x \<in> set xs. f (hd (sort_key f xs)) \<le> f x"
    using ys \<open>set (y # ys) = set xs\<close> by auto
qed


lemma ends_suffix: "y \<in> set (ends r x) \<Longrightarrow> suffix (snd y) (snd x)"
proof (induction r x arbitrary: y rule: ends.induct)
  case (1 w x)
  then show ?case by (auto simp: ends.simps suffix_drop split: if_splits)
next
  case (2 rs x)
  then show ?case by (cases "snd x") (auto simp: ends.simps suffix_ConsI split: if_splits)
next
  case (3 a b x)
  from "3.prems" obtain z where z: "z \<in> set (ends a x)" and y: "y \<in> set (ends b z)"
    by (auto simp: ends.simps)
  from "3.IH"(1) [OF z] "3.IH"(2) [OF z y] show ?case
    by (rule suffix_order.trans [rotated])
next
  case (4 a b x)
  from "4.prems" have "y \<in> set (ends a x) \<or> y \<in> set (ends b x)"
    by (simp add: ends.simps)
  with "4.IH" show ?case by blast
next
  case (5 x)
  then show ?case by (auto simp: ends.simps split: if_splits)
next
  case (6 m n r x)
  show ?case
  proof (cases "n = Some 0")
    case True
    with "6.prems" show ?thesis by (subst (asm) ends.simps(6)) simp
  next
    case False
    with "6.prems" consider "y = x"
      | z where "z \<in> set (ends r x)" "length (snd z) < length (snd x)"
          "y \<in> set (ends (Rep (m - 1) (map_option (\<lambda>k. k - 1) n) r) z)"
      by (subst (asm) ends.simps(6)) (auto split: if_splits)
    then show ?thesis
    proof cases
      case 1
      then show ?thesis by simp
    next
      case 2
      from "6.IH"(1) [OF False 2(1)] "6.IH"(2) [OF False _ 2(3)] 2(1,2)
      show ?thesis by (auto intro: suffix_order.trans)
    qed
  qed
qed

lemma ends_Seq_Lit:
  assumes "z \<in> set (ends (Seq (Lit w) r) (p, s))" and "w \<noteq> []"
  shows "\<exists>u. s = w @ u @ snd z"
proof -
  from assms obtain x where x: "x \<in> set (ends (Lit w) (p, s))" and z: "z \<in> set (ends r x)"
    by (auto simp: ends.simps(3))
  from x assms(2) have "prefix w s" and "snd x = drop (length w) s"
    by (auto simp: ends.simps(1) split: if_splits)
  moreover from ends_suffix [OF z] obtain u where "snd x = u @ snd z"
    by (auto simp: suffix_def)
  ultimately show ?thesis by (auto simp: prefix_def)
qed

lemma norm_regex_consumes:
  assumes "y \<in> set (ends NORM_REGEX (p, s))"
  shows "\<exists>c u. s = c # u @ snd y \<and> (c = 0xA7 \<or> c = 0x41)"
proof -
  let ?A = "seqs [Lit paragraph_sign, Star ws, Plus digit, Star letter]"
  let ?B = "seqs [Lit (asc ''Art.''), Star ws, Plus digit, Star letter]"
  from assms obtain r where y: "y \<in> set (ends (Seq (Alt ?A ?B) r) (p, s))"
    by (simp add: NORM_REGEX_def seqs_def)
  then obtain z where z: "z \<in> set (ends (Alt ?A ?B) (p, s))" and yz: "y \<in> set (ends r z)"
    by (auto simp: ends.simps(3))
  from ends_suffix [OF yz] obtain v where v: "snd z = v @ snd y"
    by (auto simp: suffix_def)
  from z consider "z \<in> set (ends ?A (p, s))" | "z \<in> set (ends ?B (p, s))"
    by (auto simp: ends.simps(4))
  then show ?thesis
  proof cases
    case 1
    then have "\<exists>u. s = paragraph_sign @ u @ snd z"
      by (intro ends_Seq_Lit [where r = "seqs [Star ws, Plus digit, Star letter]"])
        (simp_all add: seqs_def paragraph_sign_def)
    with v show ?thesis by (auto simp: paragraph_sign_def)
  next
    case 2
    then have "\<exists>u. s = asc ''Art.'' @ u @ snd z"
      by (intro ends_Seq_Lit [where r = "seqs [Star ws, Plus digit, Star letter]"])
        (simp_all add: seqs_def asc_def)
    with v show ?thesis by (auto simp: asc_def)
  qed
qed

lemma match_from_norm_regex:
  "raw \<in> set (match_from NORM_REGEX p s) \<Longrightarrow> \<exists>c u. raw = c # u \<and> (c = 0xA7 \<or> c = 0x41)"
proof (induction NORM_REGEX p s rule: match_from.induct)
  case (1 p s)
  show ?case
  proof (cases "ends NORM_REGEX (p, s)")
    case Nil
    from "1.prems" have raw: "raw \<in> set (case s of [] \<Rightarrow> [] | c # cs \<Rightarrow> match_from NORM_REGEX (Some c) cs)"
      by (subst (asm) match_from.simps) (simp add: Nil)
    show ?thesis
    proof (cases s)
      case Nil
      with raw show ?thesis by simp
    next
      case (Cons c cs)
      with raw have "raw \<in> set (match_from NORM_REGEX (Some c) cs)" by simp
      with "1.hyps"(1) [OF \<open>ends NORM_REGEX (p, s) = []\<close> Cons] show ?thesis by simp
    qed
  next
    case (Cons e es)
    then have "e \<in> set (ends NORM_REGEX (p, s))" by simp
    from norm_regex_consumes [OF this] obtain c u where s: "s = c # u @ snd e"
      and c: "c = 0xA7 \<or> c = 0x41" by blast
    then have n: "length s - length (snd e) = Suc (length u)" by simp
    from "1.prems" have "raw = take (Suc (length u)) s
        \<or> raw \<in> set (match_from NORM_REGEX (Some (last (take (Suc (length u)) s))) (drop (Suc (length u)) s))"
      by (subst (asm) match_from.simps) (simp add: Cons n Let_def)
    then show ?thesis
    proof
      assume "raw = take (Suc (length u)) s"
      with s c show ?thesis by auto
    next
      assume "raw \<in> set (match_from NORM_REGEX (Some (last (take (Suc (length u)) s))) (drop (Suc (length u)) s))"
      with "1.hyps"(3) [OF Cons _ _] n show ?thesis by (simp add: Let_def)
    qed
  qed
qed

section \<open>Allowed citations stay\<close>

lemma sanitize_step_allowed:
  "normalizeNorm raw \<in> set allowedNorms \<Longrightarrow> sanitize_step allowedNorms st raw = st"
  by (simp add: sanitize_step_def resolveToAllowedNorm_def)

lemma sanitize_loop_allowed:
  "\<forall>raw \<in> set found. normalizeNorm raw \<in> set allowedNorms \<Longrightarrow>
   foldl (sanitize_step allowedNorms) st found = st"
  by (induction found arbitrary: st) (simp_all add: sanitize_step_allowed)

lemma match_823_Abs_1_BGB:
  "match_all NORM_REGEX (paragraph_sign @ asc '' 823 Abs. 1 BGB'')
     = [paragraph_sign @ asc '' 823 Abs. 1 BGB'']"
  by (simp add: rx_eval)

lemma normalize_823_Abs_1_BGB:
  "normalizeNorm (paragraph_sign @ asc '' 823 Abs. 1 BGB'')
     = paragraph_sign @ asc '' 823 Abs. 1 BGB''"
  by (simp add: normalizeNorm_def trim_def is_space_def asc_def paragraph_sign_def)

text \<open>
  C4. A text all of whose citations are, in canonical spelling, members of the allowlist
  comes back unchanged, with no removed and no replaced norm. The witness is the case of
  the claim: the allowlist holds exactly \<open>\<section> 823 Abs. 1 BGB\<close> and the draft is exactly
  that citation.
\<close>

theorem allowed_citations_untouched:
  assumes "\<forall>raw \<in> set (match_all NORM_REGEX answerText). normalizeNorm raw \<in> set allowedNorms"
  shows "sanitizeAnswerCitations answerText allowedNorms =
           \<lparr>sanitizedText = answerText, removedNorms = [], replacedNorms = []\<rparr>"
  using assms
  by (simp add: sanitizeAnswerCitations_def Let_def sanitize_loop_def sanitize_loop_allowed)

theorem allowed_citations_untouched_witness:
  "match_all NORM_REGEX (paragraph_sign @ asc '' 823 Abs. 1 BGB'')
     = [paragraph_sign @ asc '' 823 Abs. 1 BGB'']
   \<and> normalizeNorm (paragraph_sign @ asc '' 823 Abs. 1 BGB'')
       \<in> set [paragraph_sign @ asc '' 823 Abs. 1 BGB'']
   \<and> sanitizeAnswerCitations (paragraph_sign @ asc '' 823 Abs. 1 BGB'')
        [paragraph_sign @ asc '' 823 Abs. 1 BGB'']
       = \<lparr>sanitizedText = paragraph_sign @ asc '' 823 Abs. 1 BGB'', removedNorms = [],
          replacedNorms = []\<rparr>"
proof -
  have h: "\<forall>raw \<in> set (match_all NORM_REGEX (paragraph_sign @ asc '' 823 Abs. 1 BGB'')).
      normalizeNorm raw \<in> set [paragraph_sign @ asc '' 823 Abs. 1 BGB'']"
    by (simp add: match_823_Abs_1_BGB normalize_823_Abs_1_BGB)
  show ?thesis
    using allowed_citations_untouched [OF h]
    by (simp add: match_823_Abs_1_BGB normalize_823_Abs_1_BGB)
qed

section \<open>Texts without citations\<close>

lemma match_none:
  "match_all NORM_REGEX (asc ''Siehe Art. und '' @ paragraph_sign @ asc '' ohne Zahl.'') = []"
  by (simp add: rx_eval)

text \<open>
  C10. When the norm grammar matches nowhere in the answer, the sanitizer returns the
  answer as it is, and both lists are empty.
\<close>

theorem no_citation_unchanged:
  "match_all NORM_REGEX answerText = [] \<Longrightarrow>
   sanitizeAnswerCitations answerText allowedNorms =
     \<lparr>sanitizedText = answerText, removedNorms = [], replacedNorms = []\<rparr>"
  by (simp add: sanitizeAnswerCitations_def)

theorem no_citation_unchanged_witness:
  "match_all NORM_REGEX (asc ''Siehe Art. und '' @ paragraph_sign @ asc '' ohne Zahl.'') = []
   \<and> sanitizeAnswerCitations (asc ''Siehe Art. und '' @ paragraph_sign @ asc '' ohne Zahl.'')
        [paragraph_sign @ asc '' 823 Abs. 1 BGB'']
       = \<lparr>sanitizedText = asc ''Siehe Art. und '' @ paragraph_sign @ asc '' ohne Zahl.'',
          removedNorms = [], replacedNorms = []\<rparr>"
  using no_citation_unchanged [OF match_none] match_none by simp

section \<open>Removal, upgrade and the first occurrence\<close>

lemma is_space_sp [simp]: "is_space 0x20"
  by (simp add: is_space_def)

lemma filter_dropWhile_space:
  "filter (\<lambda>c. \<not> is_space c) (dropWhile is_space s) = filter (\<lambda>c. \<not> is_space c) s"
  by (induction s) auto

lemma collapse_ws_keeps: "filter (\<lambda>c. \<not> is_space c) (collapse_ws s) = filter (\<lambda>c. \<not> is_space c) s"
  by (induction s rule: collapse_ws.induct) (auto simp: filter_dropWhile_space)

lemma respace_keeps: "filter (\<lambda>c. \<not> is_space c) (respace tok s) = filter (\<lambda>c. \<not> is_space c) s"
proof (induction tok s rule: respace.induct)
  case (1 tok)
  show ?case by simp
next
  case (2 tok c cs)
  show ?case
  proof (cases "tok \<noteq> [] \<and> prefix tok (c # cs)")
    case True
    then obtain r where r: "c # cs = tok @ r" by (auto simp: prefix_def)
    have "filter (\<lambda>c. \<not> is_space c) (respace tok (c # cs))
        = filter (\<lambda>c. \<not> is_space c) tok
          @ filter (\<lambda>c. \<not> is_space c) (dropWhile is_space (drop (length tok) (c # cs)))"
      using True "2.IH"(1) by simp
    also have "\<dots> = filter (\<lambda>c. \<not> is_space c) (tok @ r)"
      by (simp add: filter_dropWhile_space r)
    finally show ?thesis by (simp add: r)
  next
    case False
    with "2.IH"(2) show ?thesis by auto
  qed
qed

lemma trim_keeps: "filter (\<lambda>c. \<not> is_space c) (trim s) = filter (\<lambda>c. \<not> is_space c) s"
proof -
  have "filter (\<lambda>c. \<not> is_space c) (rev (dropWhile is_space (rev t))) = filter (\<lambda>c. \<not> is_space c) t" for t
    using filter_dropWhile_space [of "rev t"] by (simp add: rev_filter [symmetric] del: rev_filter)
  then show ?thesis by (simp add: trim_def filter_dropWhile_space)
qed

lemma normalizeNorm_keeps:
  "filter (\<lambda>c. \<not> is_space c) (normalizeNorm s) = filter (\<lambda>c. \<not> is_space c) s"
  by (simp add: normalizeNorm_def trim_keeps respace_keeps collapse_ws_keeps)

lemma normalized_match_nonempty:
  assumes "raw \<in> set (match_all NORM_REGEX answerText)"
  shows "normalizeNorm raw \<noteq> []"
proof -
  from assms match_from_norm_regex obtain c u where "raw = c # u" and "c = 0xA7 \<or> c = 0x41"
    unfolding match_all_def by blast
  moreover have "\<not> is_space 0xA7" and "\<not> is_space 0x41"
    by (simp_all add: is_space_def)
  ultimately have "filter (\<lambda>c. \<not> is_space c) raw \<noteq> []"
    by auto
  then show ?thesis
    using normalizeNorm_keeps [of raw] by auto
qed


lemma getSubstitution_placeholder [simp]:
  "getSubstitution matched pre post placeholder = placeholder"
  by (simp add: getSubstitution_plain placeholder_plain)

lemma sanitize_at_found:
  assumes "match_all NORM_REGEX answerText = earlier @ raw # later"
  shows "sanitizeAnswerCitations answerText allowedNorms =
           foldl (sanitize_step allowedNorms)
             (sanitize_step allowedNorms (sanitize_loop allowedNorms answerText earlier) raw) later"
    and "sanitize_loop allowedNorms answerText (earlier @ [raw]) =
           sanitize_step allowedNorms (sanitize_loop allowedNorms answerText earlier) raw"
  using assms by (simp_all add: sanitizeAnswerCitations_def sanitize_loop_def)

text \<open>
  What the loop does for a citation that it cannot verify: the canonical spelling is
  among the removed norms of the result, and at the citation's turn the first occurrence
  of its literal text in the text as edited so far is replaced by the placeholder.
\<close>

lemma unverified_citation_recorded:
  assumes "match_all NORM_REGEX answerText = earlier @ raw # later"
    and "normalizeNorm raw \<notin> set allowedNorms"
    and "candidates (normalizeNorm raw) allowedNorms = []"
  shows "normalizeNorm raw \<in> set (removedNorms (sanitizeAnswerCitations answerText allowedNorms))
    \<and> (\<forall>a b. sanitizedText (sanitize_loop allowedNorms answerText earlier) = a @ raw @ b
            \<and> (\<forall>i<length a. \<not> prefix raw (drop i (a @ raw @ b)))
          \<longrightarrow> sanitizedText (sanitize_loop allowedNorms answerText (earlier @ [raw]))
                = a @ placeholder @ b)"
proof -
  let ?st = "sanitize_loop allowedNorms answerText earlier"
  have step: "sanitize_step allowedNorms ?st raw =
      ?st\<lparr>removedNorms := set_add (normalizeNorm raw) (removedNorms ?st),
          sanitizedText := js_replace raw placeholder (sanitizedText ?st)\<rparr>"
    using assms(2,3) by (rule sanitize_step_unverified)
  have "normalizeNorm raw \<in> set (removedNorms (sanitize_step allowedNorms ?st raw))"
    by (simp add: step set_add_def)
  then have "normalizeNorm raw \<in> set (removedNorms (sanitizeAnswerCitations answerText allowedNorms))"
    using sanitize_fold_keeps(1) [of "sanitize_step allowedNorms ?st raw" allowedNorms later]
    by (auto simp: sanitize_at_found(1) [OF assms(1)])
  moreover have "sanitizedText (sanitize_loop allowedNorms answerText (earlier @ [raw]))
      = a @ placeholder @ b"
    if "sanitizedText ?st = a @ raw @ b" "\<forall>i<length a. \<not> prefix raw (drop i (a @ raw @ b))" for a b
    using that by (simp add: sanitize_at_found(2) [OF assms(1)] step js_replace_first placeholder_plain)
  ultimately show ?thesis by blast
qed

lemmas cite_defs = cite_823_1_BGB_def cite_999_BGB_def cite_823_BGB_def cite_823_1_def
  cite_12_def cite_1_def asc_def paragraph_sign_def

lemmas sgb_defs = cite_7_SGB_II_def cite_7_1_SGB_def cite_7_SGB_def asc_def paragraph_sign_def

lemmas step_eval = sanitize_loop_def sanitize_step_def resolveToAllowedNorm_def
  candidates_def lead_def normalizeNorm_def trim_def is_space_def js_replace_def set_add_def

lemma match_999: "match_all NORM_REGEX cite_999_BGB = [cite_999_BGB]"
  by (simp add: rx_eval cite_defs)

lemma normalize_999: "normalizeNorm cite_999_BGB = cite_999_BGB"
  by (simp add: normalizeNorm_def trim_def is_space_def asc_def paragraph_sign_def cite_defs)

lemma candidates_999: "candidates cite_999_BGB [cite_823_1_BGB] = []"
  by (simp add: candidates_def lead_def asc_def paragraph_sign_def cite_defs)

lemma sanitize_999:
  "sanitizeAnswerCitations cite_999_BGB [cite_823_1_BGB]
     = \<lparr>sanitizedText = placeholder, removedNorms = [cite_999_BGB], replacedNorms = []\<rparr>"
  unfolding sanitizeAnswerCitations_def match_999
  by (simp add: sanitize_loop_def sanitize_step_def resolveToAllowedNorm_def normalize_999
      candidates_999 set_add_def js_replace_def)
     (simp add: cite_defs asc_def paragraph_sign_def)

text \<open>
  C3 at a failing input. The allowlist holds \<open>\<section> 12\<close> and the answer reads
  \<open>\<section> 12, \<section> 1\<close>. The second citation is unverifiable and is recorded as
  removed, but the replacement lands on the first occurrence of its text, which is the
  head of the allowed first citation. The result is the placeholder followed by
  \<open>2, \<section> 1\<close>: the allowed citation is destroyed, and the unverifiable one is
  still in its place, where the norm grammar finds it again.
\<close>

theorem unverified_citation_left_in_place:
  "match_all NORM_REGEX (cite_12 @ asc '', '' @ cite_1) = [cite_12, cite_1]
   \<and> normalizeNorm cite_12 \<in> set [cite_12]
   \<and> normalizeNorm cite_1 \<notin> set [cite_12]
   \<and> candidates (normalizeNorm cite_1) [cite_12] = []
   \<and> sanitizeAnswerCitations (cite_12 @ asc '', '' @ cite_1) [cite_12]
       = \<lparr>sanitizedText = placeholder @ asc ''2, '' @ cite_1, removedNorms = [cite_1],
          replacedNorms = []\<rparr>
   \<and> placeholder @ asc ''2, '' @ cite_1 \<noteq> cite_12 @ asc '', '' @ placeholder
   \<and> match_all NORM_REGEX (placeholder @ asc ''2, '' @ cite_1) = [cite_1]"
proof -
  have m: "match_all NORM_REGEX (cite_12 @ asc '', '' @ cite_1) = [cite_12, cite_1]"
    by (simp add: rx_eval cite_defs)
  have n: "normalizeNorm cite_1 = cite_1" "normalizeNorm cite_12 = cite_12"
    by (simp_all add: normalizeNorm_def trim_def is_space_def cite_defs)
  have c: "candidates cite_1 [cite_12] = []"
    by (simp add: candidates_def lead_def cite_defs)
  have d: "cite_1 \<noteq> cite_12"
    by (simp add: cite_defs)
  have s: "sanitizeAnswerCitations (cite_12 @ asc '', '' @ cite_1) [cite_12]
       = \<lparr>sanitizedText = placeholder @ asc ''2, '' @ cite_1, removedNorms = [cite_1],
          replacedNorms = []\<rparr>"
    unfolding sanitizeAnswerCitations_def m
    by (simp add: sanitize_loop_def sanitize_step_def resolveToAllowedNorm_def n c d set_add_def
        js_replace_def) (simp add: cite_defs)
  have p: "placeholder @ asc ''2, '' @ cite_1 \<noteq> cite_12 @ asc '', '' @ placeholder"
    by (simp add: placeholder_def cite_defs)
  have r: "match_all NORM_REGEX (placeholder @ asc ''2, '' @ cite_1) = [cite_1]"
    by (simp add: rx_eval cite_defs placeholder_def)
  from m n c d s p r show ?thesis by simp
qed

lemma candidates_subset: "set (candidates n allowedNorms) \<subseteq> set allowedNorms"
  by (auto simp: candidates_def)

lemma resolve_upgrade_norm:
  "normalizeNorm raw \<notin> set allowedNorms \<Longrightarrow> candidates (normalizeNorm raw) allowedNorms \<noteq> [] \<Longrightarrow>
   norm (resolveToAllowedNorm raw allowedNorms)
     = hd (sort_key length (candidates (normalizeNorm raw) allowedNorms))"
  by (simp add: resolveToAllowedNorm_def Let_def)

text \<open>
  What the loop does for a citation that is not allowed but shares leading pair and
  last token with an allowed norm (the allowlist being free of the dollar sign): the
  norm chosen is one of those candidates and no candidate is shorter, the pair is among
  the replaced norms of the result, and at the citation's turn the first occurrence of
  its literal text in the text as edited so far is replaced by the chosen norm.
\<close>

lemma loose_citation_recorded:
  assumes "match_all NORM_REGEX answerText = earlier @ raw # later"
    and "normalizeNorm raw \<notin> set allowedNorms"
    and "candidates (normalizeNorm raw) allowedNorms \<noteq> []"
    and "\<forall>a \<in> set allowedNorms. 0x24 \<notin> set a"
  shows "norm (resolveToAllowedNorm raw allowedNorms) \<in> set (candidates (normalizeNorm raw) allowedNorms)
    \<and> (\<forall>c \<in> set (candidates (normalizeNorm raw) allowedNorms).
          length (norm (resolveToAllowedNorm raw allowedNorms)) \<le> length c)
    \<and> (normalizeNorm raw, norm (resolveToAllowedNorm raw allowedNorms))
          \<in> set (replacedNorms (sanitizeAnswerCitations answerText allowedNorms))
    \<and> (\<forall>a b. sanitizedText (sanitize_loop allowedNorms answerText earlier) = a @ raw @ b
            \<and> (\<forall>i<length a. \<not> prefix raw (drop i (a @ raw @ b)))
          \<longrightarrow> sanitizedText (sanitize_loop allowedNorms answerText (earlier @ [raw]))
                = a @ norm (resolveToAllowedNorm raw allowedNorms) @ b)"
proof -
  let ?st = "sanitize_loop allowedNorms answerText earlier"
  let ?n = "normalizeNorm raw"
  let ?to = "norm (resolveToAllowedNorm raw allowedNorms)"
  have to: "?to = hd (sort_key length (candidates ?n allowedNorms))"
    using assms(2,3) by (rule resolve_upgrade_norm)
  have cand: "?to \<in> set (candidates ?n allowedNorms)"
    and least: "\<forall>c \<in> set (candidates ?n allowedNorms). length ?to \<le> length c"
    using hd_sort_key_least [OF assms(3), of length] by (simp_all add: to)
  from cand candidates_subset assms(4) have plain: "0x24 \<notin> set ?to" by blast
  have "raw \<in> set (match_all NORM_REGEX answerText)"
    by (simp add: assms(1))
  then have "?n \<noteq> []" by (rule normalized_match_nonempty)
  with assms(2,3) have step: "sanitize_step allowedNorms ?st raw =
      ?st\<lparr>replacedNorms := replacedNorms ?st @ [(?n, ?to)],
          sanitizedText := js_replace raw ?to (sanitizedText ?st)\<rparr>"
    by (rule sanitize_step_upgrade)
  have "(?n, ?to) \<in> set (replacedNorms (sanitize_step allowedNorms ?st raw))"
    by (simp add: step)
  then have rec: "(?n, ?to) \<in> set (replacedNorms (sanitizeAnswerCitations answerText allowedNorms))"
    using sanitize_fold_keeps(2) [of "sanitize_step allowedNorms ?st raw" allowedNorms later]
    by (auto simp: sanitize_at_found(1) [OF assms(1)])
  have "sanitizedText (sanitize_loop allowedNorms answerText (earlier @ [raw])) = a @ ?to @ b"
    if "sanitizedText ?st = a @ raw @ b" "\<forall>i<length a. \<not> prefix raw (drop i (a @ raw @ b))" for a b
    using that plain by (simp add: sanitize_at_found(2) [OF assms(1)] step js_replace_first)
  with cand least rec show ?thesis by blast
qed

lemma match_823: "match_all NORM_REGEX cite_823_BGB = [cite_823_BGB]"
  by (simp add: rx_eval cite_defs)

lemma normalize_823: "normalizeNorm cite_823_BGB = cite_823_BGB"
  by (simp add: normalizeNorm_def trim_def is_space_def cite_defs)

lemma candidates_823: "candidates cite_823_BGB [cite_823_1_BGB] = [cite_823_1_BGB]"
  by (simp add: candidates_def lead_def cite_defs)

lemma sanitize_823:
  "sanitizeAnswerCitations cite_823_BGB [cite_823_1_BGB]
     = \<lparr>sanitizedText = cite_823_1_BGB, removedNorms = [],
        replacedNorms = [(cite_823_BGB, cite_823_1_BGB)]\<rparr>"
  unfolding sanitizeAnswerCitations_def match_823
  by (simp add: sanitize_loop_def sanitize_step_def resolveToAllowedNorm_def normalize_823
      candidates_823)
     (simp add: cite_defs js_replace_def getSubstitution_plain)

text \<open>
  C2 at a failing input. The allowlist holds \<open>\<section> 7 SGB II\<close> and
  \<open>\<section> 7 Abs. 1 SGB\<close>, and the answer reads \<open>\<section> 7 SGB II; \<section> 7 SGB\<close>.
  The second citation is not allowed and has the candidate \<open>\<section> 7 Abs. 1 SGB\<close>; the
  pair is recorded, but the rewrite lands on the first occurrence of its text, inside the
  allowed first citation. The result reads \<open>\<section> 7 Abs. 1 SGB II; \<section> 7 SGB\<close>: the
  loose citation is not rewritten in place, and both citations of the result are outside
  the allowlist.
\<close>

theorem loose_citation_rewritten_elsewhere:
  "match_all NORM_REGEX (cite_7_SGB_II @ asc ''; '' @ cite_7_SGB) = [cite_7_SGB_II, cite_7_SGB]
   \<and> normalizeNorm cite_7_SGB_II \<in> set [cite_7_SGB_II, cite_7_1_SGB]
   \<and> normalizeNorm cite_7_SGB \<notin> set [cite_7_SGB_II, cite_7_1_SGB]
   \<and> candidates (normalizeNorm cite_7_SGB) [cite_7_SGB_II, cite_7_1_SGB] = [cite_7_1_SGB]
   \<and> sanitizeAnswerCitations (cite_7_SGB_II @ asc ''; '' @ cite_7_SGB) [cite_7_SGB_II, cite_7_1_SGB]
       = \<lparr>sanitizedText = cite_7_1_SGB @ asc '' II; '' @ cite_7_SGB, removedNorms = [],
          replacedNorms = [(cite_7_SGB, cite_7_1_SGB)]\<rparr>
   \<and> cite_7_1_SGB @ asc '' II; '' @ cite_7_SGB \<noteq> cite_7_SGB_II @ asc ''; '' @ cite_7_1_SGB
   \<and> match_all NORM_REGEX (cite_7_1_SGB @ asc '' II; '' @ cite_7_SGB)
       = [cite_7_1_SGB @ asc '' II'', cite_7_SGB]
   \<and> normalizeNorm (cite_7_1_SGB @ asc '' II'') \<notin> set [cite_7_SGB_II, cite_7_1_SGB]"
proof -
  have m: "match_all NORM_REGEX (cite_7_SGB_II @ asc ''; '' @ cite_7_SGB) = [cite_7_SGB_II, cite_7_SGB]"
    by (simp add: rx_eval sgb_defs)
  have n: "normalizeNorm cite_7_SGB = cite_7_SGB" "normalizeNorm cite_7_SGB_II = cite_7_SGB_II"
    "normalizeNorm (cite_7_1_SGB @ asc '' II'') = cite_7_1_SGB @ asc '' II''"
    by (simp_all add: normalizeNorm_def trim_def is_space_def sgb_defs)
  have c: "candidates cite_7_SGB [cite_7_SGB_II, cite_7_1_SGB] = [cite_7_1_SGB]"
    by (simp add: candidates_def lead_def sgb_defs)
  have d: "cite_7_SGB \<noteq> cite_7_SGB_II" "cite_7_SGB \<noteq> cite_7_1_SGB"
    "cite_7_1_SGB @ asc '' II'' \<noteq> cite_7_SGB_II" "cite_7_1_SGB @ asc '' II'' \<noteq> cite_7_1_SGB"
    by (simp_all add: sgb_defs)
  have s: "sanitizeAnswerCitations (cite_7_SGB_II @ asc ''; '' @ cite_7_SGB) [cite_7_SGB_II, cite_7_1_SGB]
       = \<lparr>sanitizedText = cite_7_1_SGB @ asc '' II; '' @ cite_7_SGB, removedNorms = [],
          replacedNorms = [(cite_7_SGB, cite_7_1_SGB)]\<rparr>"
    unfolding sanitizeAnswerCitations_def m
    by (simp add: sanitize_loop_def sanitize_step_def resolveToAllowedNorm_def n c d)
       (simp add: sgb_defs js_replace_def getSubstitution_plain)
  have p: "cite_7_1_SGB @ asc '' II; '' @ cite_7_SGB \<noteq> cite_7_SGB_II @ asc ''; '' @ cite_7_1_SGB"
    by (simp add: sgb_defs)
  have r: "match_all NORM_REGEX (cite_7_1_SGB @ asc '' II; '' @ cite_7_SGB)
       = [cite_7_1_SGB @ asc '' II'', cite_7_SGB]"
    by (simp add: rx_eval sgb_defs)
  from m n c d s p r show ?thesis by simp
qed

text \<open>
  C1 at a failing input. The allowlist holds \<open>\<section> 823 Abs. 1 BGB\<close> and the answer cites
  it and then \<open>\<section> 823 Abs. 1\<close>. The second citation is unverifiable, but the
  replacement lands on the first occurrence of its text, which is inside the first
  citation: the result still holds \<open>\<section> 823 Abs. 1\<close>, a match of the norm grammar
  that is not in the allowlist.
\<close>

theorem unverified_citation_survives:
  "sanitizedText (sanitizeAnswerCitations (cite_823_1_BGB @ asc ''; '' @ cite_823_1) [cite_823_1_BGB])
     = placeholder @ asc '' BGB; '' @ cite_823_1
   \<and> match_all NORM_REGEX (placeholder @ asc '' BGB; '' @ cite_823_1) = [cite_823_1]
   \<and> normalizeNorm cite_823_1 \<notin> set [cite_823_1_BGB]"
proof -
  have m: "match_all NORM_REGEX (cite_823_1_BGB @ asc ''; '' @ cite_823_1) = [cite_823_1_BGB, cite_823_1]"
    by (simp add: rx_eval cite_defs)
  have n: "normalizeNorm cite_823_1 = cite_823_1" "normalizeNorm cite_823_1_BGB = cite_823_1_BGB"
    by (simp_all add: normalizeNorm_def trim_def is_space_def cite_defs)
  have c: "candidates cite_823_1 [cite_823_1_BGB] = []"
    by (simp add: candidates_def lead_def cite_defs)
  have d: "cite_823_1 \<noteq> cite_823_1_BGB"
    by (simp add: cite_defs)
  have s: "sanitizedText (sanitizeAnswerCitations (cite_823_1_BGB @ asc ''; '' @ cite_823_1) [cite_823_1_BGB])
     = placeholder @ asc '' BGB; '' @ cite_823_1"
    unfolding sanitizeAnswerCitations_def m
    by (simp add: sanitize_loop_def sanitize_step_def resolveToAllowedNorm_def n c d set_add_def
        js_replace_def) (simp add: cite_defs)
  have r: "match_all NORM_REGEX (placeholder @ asc '' BGB; '' @ cite_823_1) = [cite_823_1]"
    by (simp add: rx_eval cite_defs placeholder_def)
  from s r n d show ?thesis by simp
qed

section \<open>The chunk size bound and the cut\<close>


lemma trim_split: "dropWhile is_space s = trim s @ rev (takeWhile is_space (rev (dropWhile is_space s)))"
proof -
  have "rev (rev (dropWhile is_space s))
      = rev (takeWhile is_space (rev (dropWhile is_space s)) @ dropWhile is_space (rev (dropWhile is_space s)))"
    by (simp only: takeWhile_dropWhile_id)
  then show ?thesis by (simp only: rev_rev_ident rev_append trim_def)
qed

lemma trim_hd: "trim s \<noteq> [] \<Longrightarrow> \<not> is_space (hd (trim s))"
proof -
  assume ne: "trim s \<noteq> []"
  have "dropWhile is_space s \<noteq> []"
  proof
    assume "dropWhile is_space s = []"
    then have "trim s = []" unfolding trim_def by (simp only: rev.simps dropWhile.simps)
    with ne show False ..
  qed
  then have "\<not> is_space (hd (dropWhile is_space s))"
    by (rule hd_dropWhile)
  moreover have "hd (dropWhile is_space s) = hd (trim s)"
    using ne by (subst trim_split) simp
  ultimately show ?thesis by simp
qed


















section \<open>The single active version, and a run that fails\<close>

lemma is_active_begin:
  "is_active (beginVersion tag url now d) t \<longleftrightarrow> t \<noteq> tag \<and> is_active d t"
  by (simp add: is_active_def beginVersion_def)

lemma is_active_commit [simp]:
  "is_active (commitVersion tag d) t \<longleftrightarrow> t = tag \<and> law_dataset_versions d tag \<noteq> None"
  by (auto simp: is_active_def commitVersion_def set_pointer_def set_active_def
      archive_active_others_def split: option.splits)

lemma is_active_fail:
  "is_active (markVersionFailed tag now d) t \<longleftrightarrow> t \<noteq> tag \<and> is_active d t"
  by (auto simp: is_active_def markVersionFailed_def split: option.splits)

lemma is_active_chunks [simp]: "is_active (d\<lparr>law_chunks := cs\<rparr>) t = is_active d t"
  by (simp add: is_active_def)

lemma pointer_simps [simp]:
  "active_version_tag (beginVersion tag url now d) = active_version_tag d"
  "active_version_tag (commitVersion tag d) = Some tag"
  "active_version_tag (markVersionFailed tag now d) = active_version_tag d"
  by (simp_all add: beginVersion_def commitVersion_def set_pointer_def set_active_def
      archive_active_others_def markVersionFailed_def)

lemma reachable_pointer:
  "reachable d \<Longrightarrow> is_active d t \<Longrightarrow> active_version_tag d = Some t"
proof (induction arbitrary: t rule: reachable.induct)
  case reach_empty
  then show ?case by (simp add: is_active_def empty_db_def)
next
  case (reach_begin d tag url now)
  then show ?case by (simp add: is_active_begin)
next
  case (reach_commit d tag)
  then show ?case by simp
next
  case (reach_fail d tag now)
  then show ?case by (simp add: is_active_fail)
next
  case (reach_chunks d cs)
  then show ?case by simp
qed

lemma insertRows_versions:
  "insertRows tag rows embs d = Inr d' \<Longrightarrow>
   law_dataset_versions d' = law_dataset_versions d \<and> active_version_tag d' = active_version_tag d"
  by (induction tag rows embs d rule: insertRows.induct) auto

lemma insertRows_reachable:
  "insertRows tag rows embs d = Inr d' \<Longrightarrow> reachable d \<Longrightarrow> reachable d'"
proof (induction tag rows embs d rule: insertRows.induct)
  case (3 tag r rs e es d)
  from "3.prems"(2) have "reachable (d\<lparr>law_chunks := law_chunks d @
            [\<lparr>version_tag = tag, law = row_law r, section_label = row_section r,
              title = row_title r, chunk_text = row_text r, source = row_source r,
              embedding = e\<rparr>]\<rparr>)"
    by (rule reach_chunks)
  with 3 show ?case by simp
qed simp_all


lemma ingest_batches_keeps_result:
  assumes "ingest_batches batchSize embedBatch tag rows i d = Some y"
  shows "\<forall>d'. y = Inr d' \<longrightarrow>
     law_dataset_versions d' = law_dataset_versions d \<and> active_version_tag d' = active_version_tag d
     \<and> (reachable d \<longrightarrow> reachable d')"
proof (rule ingest_batches.raw_induct [where P = "\<lambda>batchSize embedBatch tag rows i d y.
    \<forall>d'. y = Inr d' \<longrightarrow>
     law_dataset_versions d' = law_dataset_versions d \<and> active_version_tag d' = active_version_tag d
     \<and> (reachable d \<longrightarrow> reachable d')", OF _ assms])
  fix f :: "nat \<Rightarrow> (jsstring list \<Rightarrow> 'c list option) \<Rightarrow> 'a \<Rightarrow> norm_row list \<Rightarrow> nat \<Rightarrow> ('a, 'c) db
     \<Rightarrow> (ingest_error + ('a, 'c) db) option"
  fix batchSize embedBatch tag rows i and d :: "('a, 'c) db" and y
  assume IH: "\<And>batchSize embedBatch tag rows i d y. f batchSize embedBatch tag rows i d = Some y \<Longrightarrow>
    \<forall>d'. y = Inr d' \<longrightarrow>
     law_dataset_versions d' = law_dataset_versions d \<and> active_version_tag d' = active_version_tag d
     \<and> (reachable d \<longrightarrow> reachable d')"
  assume eq: "(if i < length rows
      then case embedBatch (map row_text (take batchSize (drop i rows))) of
           None \<Rightarrow> Some (Inl EmbeddingsHTTP)
           | Some embs \<Rightarrow>
               case insertRows tag (take batchSize (drop i rows)) embs d of
               Inl e \<Rightarrow> Some (Inl e)
               | Inr d' \<Rightarrow> f batchSize embedBatch tag rows (i + batchSize) d'
      else Some (Inr d)) = Some y"
  show "\<forall>d'. y = Inr d' \<longrightarrow>
     law_dataset_versions d' = law_dataset_versions d \<and> active_version_tag d' = active_version_tag d
     \<and> (reachable d \<longrightarrow> reachable d')"
  proof (intro allI impI)
    fix d'
    assume y: "y = Inr d'"
    show "law_dataset_versions d' = law_dataset_versions d \<and> active_version_tag d' = active_version_tag d
     \<and> (reachable d \<longrightarrow> reachable d')"
    proof (cases "i < length rows")
      case False
      with eq y show ?thesis by simp
    next
      case True
      with eq y have eq': "(case embedBatch (map row_text (take batchSize (drop i rows))) of
           None \<Rightarrow> Some (Inl EmbeddingsHTTP)
           | Some embs \<Rightarrow>
               case insertRows tag (take batchSize (drop i rows)) embs d of
               Inl e \<Rightarrow> Some (Inl e)
               | Inr d' \<Rightarrow> f batchSize embedBatch tag rows (i + batchSize) d') = Some (Inr d')"
        by simp
      then obtain embs where embs: "embedBatch (map row_text (take batchSize (drop i rows))) = Some embs"
        by (cases "embedBatch (map row_text (take batchSize (drop i rows)))") simp_all
      with eq' obtain d1 where
        ins: "insertRows tag (take batchSize (drop i rows)) embs d = Inr d1"
        and rec: "f batchSize embedBatch tag rows (i + batchSize) d1 = Some (Inr d')"
        by (cases "insertRows tag (take batchSize (drop i rows)) embs d") simp_all
      from IH [OF rec] have "law_dataset_versions d' = law_dataset_versions d1
          \<and> active_version_tag d' = active_version_tag d1 \<and> (reachable d1 \<longrightarrow> reachable d')"
        by simp
      with insertRows_versions [OF ins] insertRows_reachable [OF ins]
      show ?thesis by simp
    qed
  qed
qed

lemma ingest_batches_keeps:
  "ingest_batches batchSize embedBatch tag rows i d = Some (Inr d') \<Longrightarrow>
   law_dataset_versions d' = law_dataset_versions d \<and> active_version_tag d' = active_version_tag d
   \<and> (reachable d \<longrightarrow> reachable d')"
  using ingest_batches_keeps_result [of batchSize embedBatch tag rows i d "Inr d'"] by simp

lemma ingest_files_keeps:
  "ingest_files batchSize embedBatch tag files d = Some (Inr d') \<Longrightarrow>
   law_dataset_versions d' = law_dataset_versions d \<and> active_version_tag d' = active_version_tag d
   \<and> (reachable d \<longrightarrow> reachable d')"
proof (induction files arbitrary: d)
  case Nil
  then show ?case by simp
next
  case (Cons rows files)
  from Cons.prems obtain y where y: "ingest_batches batchSize embedBatch tag rows 0 d = Some y"
    by (cases "ingest_batches batchSize embedBatch tag rows 0 d") simp_all
  with Cons.prems obtain d1 where
    b: "ingest_batches batchSize embedBatch tag rows 0 d = Some (Inr d1)"
    and f: "ingest_files batchSize embedBatch tag files d1 = Some (Inr d')"
    by (cases y) simp_all
  from ingest_batches_keeps [OF b] Cons.IH [OF f] show ?case by simp
qed

lemma main_committed:
  assumes "files \<noteq> []" and "main cfg embedBatch now files d = Some (None, d')"
  shows "\<exists>d3. d' = commitVersion (LAW_VERSION_TAG cfg) d3
           \<and> law_dataset_versions d3 (LAW_VERSION_TAG cfg) \<noteq> None
           \<and> (reachable d \<longrightarrow> reachable d3)"
proof -
  define tag where "tag = LAW_VERSION_TAG cfg"
  define d1 where "d1 = beginVersion tag (if LAW_SOURCE_URL cfg = [] then None else Some (LAW_SOURCE_URL cfg)) now d"
  define d2 where "d2 = (if replace_mode cfg then delete_chunks tag d1 else d1)"
  define res where "res = ingest_files (EMB_BATCH_SIZE cfg) embedBatch tag (filter (\<lambda>rows. rows \<noteq> []) files) d2"
  have body: "transaction_body cfg embedBatch now files d =
      (case res of None \<Rightarrow> None | Some (Inl e) \<Rightarrow> Some (Inl e)
       | Some (Inr d3) \<Rightarrow> Some (Inr (commitVersion tag d3)))"
    unfolding transaction_body_def Let_def res_def d2_def d1_def tag_def by (rule refl)
  have m: "main cfg embedBatch now files d =
      (case transaction_body cfg embedBatch now files d of
             None \<Rightarrow> None
           | Some (Inr d') \<Rightarrow> Some (None, d')
           | Some (Inl e) \<Rightarrow> Some (Some e, markVersionFailed (LAW_VERSION_TAG cfg) now d))"
    using assms(1) by (simp add: main_def)
  obtain d3 where f: "res = Some (Inr d3)" and d': "d' = commitVersion tag d3"
  proof (cases res)
    case None
    with assms(2) m body show ?thesis by simp
  next
    case (Some y)
    with assms(2) m body that show ?thesis by (cases y) simp_all
  qed
  have v2: "law_dataset_versions d2 tag \<noteq> None"
    by (simp add: d2_def d1_def beginVersion_def delete_chunks_def)
  have "reachable d \<Longrightarrow> reachable d1"
    unfolding d1_def by (rule reach_begin)
  moreover have "reachable d1 \<Longrightarrow> reachable d2"
    unfolding d2_def delete_chunks_def by (simp add: reach_chunks)
  ultimately have r2: "reachable d \<longrightarrow> reachable d2" by blast
  from f have "ingest_files (EMB_BATCH_SIZE cfg) embedBatch tag (filter (\<lambda>rows. rows \<noteq> []) files) d2
      = Some (Inr d3)"
    by (simp add: res_def)
  from ingest_files_keeps [OF this] have same: "law_dataset_versions d3 = law_dataset_versions d2"
    and r3: "reachable d2 \<longrightarrow> reachable d3"
    by blast+
  from same v2 have "law_dataset_versions d3 tag \<noteq> None" by simp
  moreover from r2 r3 have "reachable d \<longrightarrow> reachable d3" by blast
  ultimately show ?thesis using d' unfolding tag_def by blast
qed

lemma main_failed:
  assumes "main cfg embedBatch now files d = Some (Some e, d')"
  shows "d' = markVersionFailed (LAW_VERSION_TAG cfg) now d"
proof (cases "files = []")
  case True
  with assms show ?thesis by (simp add: main_def)
next
  case False
  with assms show ?thesis
    by (cases "transaction_body cfg embedBatch now files d")
      (auto simp: main_def split: sum.splits)
qed

text \<open>
  C7. In every state that the version store can reach, at most one version is active,
  and an active version is the one the pointer names. After a run of \<open>main\<close> for a tag
  that ends with its commit, the store is again such a state, the tag's version is
  active, no other version is, and the pointer names the tag.
\<close>

theorem single_active_version:
  assumes "reachable d"
  shows "(\<forall>t t'. is_active d t \<and> is_active d t' \<longrightarrow> t = t')
    \<and> (\<forall>t. is_active d t \<longrightarrow> active_version_tag d = Some t)
    \<and> (\<forall>cfg embedBatch now files d'.
          files \<noteq> [] \<and> main cfg embedBatch now files d = Some (None, d') \<longrightarrow>
            reachable d' \<and> is_active d' (LAW_VERSION_TAG cfg)
            \<and> (\<forall>t. is_active d' t \<longrightarrow> t = LAW_VERSION_TAG cfg)
            \<and> active_version_tag d' = Some (LAW_VERSION_TAG cfg))"
proof (intro conjI allI impI)
  fix t t'
  assume "is_active d t \<and> is_active d t'"
  then have "active_version_tag d = Some t" and "active_version_tag d = Some t'"
    using assms by (simp_all add: reachable_pointer)
  then show "t = t'" by simp
next
  fix t
  assume "is_active d t"
  with assms show "active_version_tag d = Some t" by (rule reachable_pointer)
next
  fix cfg :: "'a ingest_config" and embedBatch :: "jsstring list \<Rightarrow> 'b list option"
    and now files and d' :: "('a, 'b) db"
  assume run: "files \<noteq> [] \<and> main cfg embedBatch now files d = Some (None, d')"
  then have "files \<noteq> []" and "main cfg embedBatch now files d = Some (None, d')"
    by simp_all
  from main_committed [OF this] assms obtain d3 where
    d3: "d' = commitVersion (LAW_VERSION_TAG cfg) d3"
      "law_dataset_versions d3 (LAW_VERSION_TAG cfg) \<noteq> None" "reachable d3"
    by blast
  from d3 show "reachable d'" by (simp add: reach_commit)
  from d3 show "is_active d' (LAW_VERSION_TAG cfg)" by simp
  from d3 show "active_version_tag d' = Some (LAW_VERSION_TAG cfg)" by simp
  fix t
  assume "is_active d' t"
  with d3 show "t = LAW_VERSION_TAG cfg" by simp
qed

lemmas store_eval = main_def transaction_body_def beginVersion_def delete_chunks_def
  commitVersion_def archive_active_others_def set_active_def set_pointer_def
  markVersionFailed_def ingest_batches.simps sample_cfg_def sample_row_def tag_feb_def
  tag_mar_def feb_db_def mar_db_def feb_chunk_def mar_chunk_def Let_def

lemma feb_db_reachable: "reachable feb_db"
proof -
  have "reachable (commitVersion tag_feb (beginVersion tag_feb None 1
          ((empty_db :: (string, nat) db)\<lparr>law_chunks := [feb_chunk]\<rparr>)))"
    by (intro reach_commit reach_begin reach_chunks reach_empty)
  moreover have "commitVersion tag_feb (beginVersion tag_feb None 1
          ((empty_db :: (string, nat) db)\<lparr>law_chunks := [feb_chunk]\<rparr>)) = feb_db"
    by (simp add: store_eval empty_db_def fun_eq_iff)
  ultimately show ?thesis by simp
qed

lemma sample_run:
  "main sample_cfg (\<lambda>texts. Some (map (\<lambda>t. 1) texts)) 2 [[sample_row]] feb_db = Some (None, mar_db)"
  by (simp add: store_eval fun_eq_iff)

theorem single_active_version_witness:
  "reachable feb_db
   \<and> is_active feb_db tag_feb \<and> active_version_tag feb_db = Some tag_feb
   \<and> main sample_cfg (\<lambda>texts. Some (map (\<lambda>t. 1) texts)) 2 [[sample_row]] feb_db = Some (None, mar_db)
   \<and> reachable mar_db \<and> is_active mar_db tag_mar \<and> \<not> is_active mar_db tag_feb
   \<and> active_version_tag mar_db = Some tag_mar"
proof -
  note inst = single_active_version [OF feb_db_reachable]
  have a: "is_active feb_db tag_feb" and b: "\<not> is_active mar_db tag_feb"
    by (simp_all add: is_active_def feb_db_def mar_db_def tag_feb_def tag_mar_def)
  from inst a have p: "active_version_tag feb_db = Some tag_feb" by blast
  have run: "[[sample_row]] \<noteq> [] \<and> main sample_cfg (\<lambda>texts. Some (map (\<lambda>t. 1) texts)) 2 [[sample_row]] feb_db
      = Some (None, mar_db)"
    using sample_run by simp
  from inst have "\<forall>cfg embedBatch now files d'.
          files \<noteq> [] \<and> main cfg embedBatch now files feb_db = Some (None, d') \<longrightarrow>
            reachable d' \<and> is_active d' (LAW_VERSION_TAG cfg)
            \<and> (\<forall>t. is_active d' t \<longrightarrow> t = LAW_VERSION_TAG cfg)
            \<and> active_version_tag d' = Some (LAW_VERSION_TAG cfg)"
    by (elim conjE)
  from this [rule_format, OF run]
  have "reachable mar_db" "is_active mar_db tag_mar" "active_version_tag mar_db = Some tag_mar"
    by (simp_all add: sample_cfg_def)
  with feb_db_reachable a b p sample_run show ?thesis by simp
qed

text \<open>
  C8 at a failing input. The store holds the active version \<open>2026-02-01\<close>; a run for
  the new tag \<open>2026-03-01\<close> meets an embedding provider that fails. The run rethrows the
  error, and the store is what it was: the row that the run inserted for \<open>2026-03-01\<close>
  went with the rollback, so \<open>markVersionFailed\<close> updates nothing, and no row marked
  \<open>failed\<close> exists for the tag.
\<close>

theorem failed_run_leaves_no_failed_row:
  "main sample_cfg (\<lambda>texts. None) 2 [[sample_row]] feb_db = Some (Some EmbeddingsHTTP, feb_db)
   \<and> law_dataset_versions feb_db tag_mar = None"
  by (simp add: store_eval fun_eq_iff)

lemma failed_run_keeps_others:
  assumes "main cfg embedBatch now files d = Some (Some e, d')"
  shows "law_chunks d' = law_chunks d" and "active_version_tag d' = active_version_tag d"
    and "t \<noteq> LAW_VERSION_TAG cfg \<Longrightarrow> law_dataset_versions d' t = law_dataset_versions d t"
    and "law_dataset_versions d (LAW_VERSION_TAG cfg) = Some r \<Longrightarrow>
         law_dataset_versions d' (LAW_VERSION_TAG cfg) = Some (r\<lparr>status := Failed, imported_at := now\<rparr>)"
  using main_failed [OF assms] by (simp_all add: markVersionFailed_def)

section \<open>Which version a query reads\<close>

lemma effective_version_has_chunk:
  fixes d :: "('t::linorder, 'e) db"
  assumes "law_chunks d \<noteq> []"
  shows "\<exists>c \<in> set (law_chunks d). Some (version_tag c) = effective_version d"
proof (cases "\<exists>c \<in> set (law_chunks d). Some (version_tag c) = active_version_tag d")
  case True
  then show ?thesis by (simp add: effective_version_def)
next
  case False
  have "Max (set (map version_tag (law_chunks d))) \<in> set (map version_tag (law_chunks d))"
    using assms by (intro Max_in) simp_all
  then obtain c where "c \<in> set (law_chunks d)"
    and "version_tag c = Max (set (map version_tag (law_chunks d)))"
    by auto
  with False assms show ?thesis by (auto simp: effective_version_def)
qed

lemma query_rows_version:
  fixes d :: "('t::linorder, 'e) db"
  assumes "c \<in> set (query_rows dist limit lawCodeFilter d)"
  shows "Some (version_tag c) = effective_version d"
proof -
  from assms have "c \<in> set (sort_key (\<lambda>c. dist (embedding c))
       (filter (\<lambda>c. (effective_version d = None \<or> Some (version_tag c) = effective_version d)
                   \<and> (lawCodeFilter = [] \<or> law c \<in> set lawCodeFilter))
          (law_chunks d)))"
    unfolding query_rows_def by (rule in_set_takeD)
  then have c: "c \<in> set (law_chunks d)"
    and v: "effective_version d = None \<or> Some (version_tag c) = effective_version d"
    by simp_all
  from c have "law_chunks d \<noteq> []" by auto
  from effective_version_has_chunk [OF this] obtain c' where "c' \<in> set (law_chunks d)"
    and "Some (version_tag c') = effective_version d"
    by blast
  from this(2) [symmetric] have "effective_version d \<noteq> None" by simp
  with v show ?thesis by simp
qed

lemma query_rows_nonempty:
  fixes d :: "('t::linorder, 'e) db"
  assumes "law_chunks d \<noteq> []" and "0 < limit"
  shows "query_rows dist limit [] d \<noteq> []"
proof -
  let ?sel = "filter (\<lambda>c. (effective_version d = None \<or> Some (version_tag c) = effective_version d)
                   \<and> (([]::jsstring list) = [] \<or> law c \<in> set []))
          (law_chunks d)"
  from effective_version_has_chunk [OF assms(1)] have "?sel \<noteq> []"
    by (auto simp: filter_empty_conv)
  then have "sort_key (\<lambda>c. dist (embedding c)) ?sel \<noteq> []"
    by (auto dest: arg_cong [where f = length])
  with assms(2) have "take limit (sort_key (\<lambda>c. dist (embedding c)) ?sel) \<noteq> []"
    by (simp add: take_eq_Nil)
  then show ?thesis unfolding query_rows_def .
qed



text \<open>
  The query of \<open>retrieveLegalSources\<close> does what the versioning rule says. Every row it
  selects carries the effective version. The effective version is the one the pointer
  names when a chunk carries that tag; when none does (the pointer is unset, or stale) and
  chunks exist, it is the greatest tag among the stored chunks. So with chunks stored, no
  law code filter and a positive limit the rows are not empty, and the function returns a
  non-empty list when the query text is non-empty and the embedding arrives.
\<close>

lemma retrieveLegalSources_resolves_version:
  fixes d :: "('t::linorder, 'e) db" and dist :: "'e \<Rightarrow> 'd::linorder"
  shows "(\<forall>c \<in> set (query_rows dist limit lawCodeFilter d). Some (version_tag c) = effective_version d)
    \<and> ((\<exists>c \<in> set (law_chunks d). Some (version_tag c) = active_version_tag d)
         \<longrightarrow> effective_version d = active_version_tag d)
    \<and> (law_chunks d \<noteq> [] \<and> \<not> (\<exists>c \<in> set (law_chunks d). Some (version_tag c) = active_version_tag d)
         \<longrightarrow> effective_version d = Some (Max (set (map version_tag (law_chunks d))))
             \<and> (\<exists>c \<in> set (law_chunks d). Some (version_tag c) = effective_version d))
    \<and> (law_chunks d \<noteq> [] \<and> 0 < limit \<longrightarrow> query_rows dist limit [] d \<noteq> [])
    \<and> (law_chunks d \<noteq> [] \<and> 0 < LEGAL_TOP_K \<and> queryText \<noteq> []
           \<and> getTextEmbedding queryText = Some (Some dist)
         \<longrightarrow> (\<exists>rows. retrieveLegalSources LEGAL_TOP_K score_of getTextEmbedding (Some d) queryText topK []
                       = Some rows \<and> rows \<noteq> []))"
proof (intro conjI ballI impI)
  fix c
  assume "c \<in> set (query_rows dist limit lawCodeFilter d)"
  then show "Some (version_tag c) = effective_version d" by (rule query_rows_version)
next
  assume "\<exists>c \<in> set (law_chunks d). Some (version_tag c) = active_version_tag d"
  then show "effective_version d = active_version_tag d" by (simp add: effective_version_def)
next
  assume a: "law_chunks d \<noteq> [] \<and> \<not> (\<exists>c \<in> set (law_chunks d). Some (version_tag c) = active_version_tag d)"
  then show "effective_version d = Some (Max (set (map version_tag (law_chunks d))))"
    by (simp add: effective_version_def)
  from a show "\<exists>c \<in> set (law_chunks d). Some (version_tag c) = effective_version d"
    by (simp add: effective_version_has_chunk)
next
  assume "law_chunks d \<noteq> [] \<and> 0 < limit"
  then show "query_rows dist limit [] d \<noteq> []" by (simp add: query_rows_nonempty)
next
  assume a: "law_chunks d \<noteq> [] \<and> 0 < LEGAL_TOP_K \<and> queryText \<noteq> []
           \<and> getTextEmbedding queryText = Some (Some dist)"
  let ?limit = "case topK of None \<Rightarrow> LEGAL_TOP_K | Some k \<Rightarrow> if 0 < k then nat k else LEGAL_TOP_K"
  from a have "0 < ?limit" by (cases topK) simp_all
  with a have "query_rows dist ?limit [] d \<noteq> []" by (simp add: query_rows_nonempty)
  with a show "\<exists>rows. retrieveLegalSources LEGAL_TOP_K score_of getTextEmbedding (Some d) queryText topK []
                       = Some rows \<and> rows \<noteq> []"
    by (simp add: retrieveLegalSources_def)
qed

lemmas retrieval_eval = query_rows_def effective_version_def stale_db_def feb_chunk_def
  mar_chunk_def tag_feb_def tag_mar_def tag_apr_def

lemma stale_query: "query_rows (\<lambda>e. e) 5 [] stale_db = [mar_chunk]"
  by (simp add: retrieval_eval)

lemma stale_pointer_falls_back:
  "law_chunks stale_db \<noteq> []
   \<and> active_version_tag stale_db = Some tag_apr
   \<and> tag_apr \<notin> set (map version_tag (law_chunks stale_db))
   \<and> effective_version stale_db = Some tag_mar
   \<and> query_rows (\<lambda>e. e) 5 [] stale_db = [mar_chunk]
   \<and> query_rows (\<lambda>e. e) 5 [] stale_db \<noteq> []"
proof -
  have ne: "law_chunks stale_db \<noteq> [] \<and> (0::nat) < 5"
    by (simp add: stale_db_def)
  have "law_chunks stale_db \<noteq> [] \<and> (0::nat) < 5 \<longrightarrow> query_rows (\<lambda>e. e) 5 [] stale_db \<noteq> []"
    by (rule retrieveLegalSources_resolves_version [of "\<lambda>e. e" 5 "[]" stale_db,
          THEN conjunct2, THEN conjunct2, THEN conjunct2, THEN conjunct1])
  with ne have "query_rows (\<lambda>e. e) 5 [] stale_db \<noteq> []" by (rule rev_mp)
  moreover have "effective_version stale_db = Some tag_mar"
    and "tag_apr \<notin> set (map version_tag (law_chunks stale_db))"
    and "active_version_tag stale_db = Some tag_apr"
    by (simp_all add: retrieval_eval)
  ultimately show ?thesis using ne stale_query by simp
qed


text \<open>
  C9 at a failing input. The version \<open>2026-04-01\<close> is active and the pointer names it,
  but no chunk carries that tag; chunks of \<open>2026-02-01\<close> and \<open>2026-03-01\<close> are stored.
  \<open>retrieveLegalSources\<close> falls back to the greatest stored tag and returns the chunk of
  \<open>2026-03-01\<close>. \<open>retrieveLaws\<close> asks \<open>getActiveVersionTag\<close>, gets \<open>2026-04-01\<close>,
  selects no row and returns the empty string, although chunks are stored.
\<close>

theorem retrieveLaws_empty_on_stale_version:
  "map_of stale_versions = law_dataset_versions stale_db
   \<and> active_version_tag stale_db = Some tag_apr
   \<and> law_chunks stale_db = [feb_chunk, mar_chunk]
   \<and> getActiveVersionTag ''legacy'' stale_versions = tag_apr
   \<and> retrieveLaws ''legacy'' (\<lambda>q. Some (1536, \<lambda>e. e)) (\<lambda>rows. asc ''rows'') stale_versions
         (law_chunks stale_db) (asc ''Schadensersatz'') 5 = Some []
   \<and> query_rows (\<lambda>e. e) 5 [] stale_db = [mar_chunk]"
proof -
  have v: "map_of stale_versions = law_dataset_versions stale_db"
    by (simp add: stale_versions_def stale_db_def fun_eq_iff tag_feb_def tag_mar_def tag_apr_def)
  have g: "getActiveVersionTag ''legacy'' stale_versions = tag_apr"
    by (simp add: getActiveVersionTag_def stale_versions_def)
  have t: "trim (asc ''Schadensersatz'') = asc ''Schadensersatz''"
    by (simp add: trim_def is_space_def asc_def)
  have r: "retrieveLaws ''legacy'' (\<lambda>q. Some (1536, \<lambda>e. e)) (\<lambda>rows. asc ''rows'') stale_versions
         (law_chunks stale_db) (asc ''Schadensersatz'') 5 = Some []"
    unfolding retrieveLaws_def t g
    by (simp add: stale_db_def feb_chunk_def mar_chunk_def tag_feb_def tag_mar_def tag_apr_def asc_def)
  have "active_version_tag stale_db = Some tag_apr" "law_chunks stale_db = [feb_chunk, mar_chunk]"
    by (simp_all add: stale_db_def)
  with v g r stale_query show ?thesis by simp
qed

section \<open>The canonical spelling is a fixed point\<close>

lemma dropWhile_start: "xs = [] \<or> \<not> P (hd xs) \<Longrightarrow> dropWhile P xs = xs"
  by (cases xs) auto

lemma dropWhile_starts: "dropWhile P xs = [] \<or> \<not> P (hd (dropWhile P xs))"
  using hd_dropWhile [of P xs] by blast

lemma respace_match:
  "tok \<noteq> [] \<Longrightarrow> prefix tok (c # cs) \<Longrightarrow>
   respace tok (c # cs) = tok @ 0x20 # respace tok (dropWhile is_space (drop (length tok) (c # cs)))"
  by simp

lemma respace_step:
  "\<not> (tok \<noteq> [] \<and> prefix tok (c # cs)) \<Longrightarrow> respace tok (c # cs) = c # respace tok cs"
  by auto

declare respace.simps(2) [simp del]

lemma respace_prefix:
  "tok \<noteq> [] \<Longrightarrow> respace tok (tok @ r) = tok @ 0x20 # respace tok (dropWhile is_space r)"
proof -
  assume ne: "tok \<noteq> []"
  then obtain c cs where eq: "tok @ r = c # cs" by (cases tok) auto
  have "prefix tok (c # cs)" unfolding eq [symmetric] by simp
  from respace_match [OF ne this] show ?thesis unfolding eq [symmetric] by simp
qed

lemma respace_space_hd:
  assumes "\<forall>x \<in> set tok. \<not> is_space x" and "is_space c"
  shows "respace tok (c # cs) = c # respace tok cs"
proof (rule respace_step, rule notI)
  assume "tok \<noteq> [] \<and> prefix tok (c # cs)"
  then have "c \<in> set tok" by (cases tok) auto
  with assms show False by blast
qed

lemma respace_spaces:
  assumes "\<forall>x \<in> set tok. \<not> is_space x"
  shows "\<forall>x \<in> set sps. is_space x \<Longrightarrow> respace tok (sps @ y) = sps @ respace tok y"
  by (induction sps) (simp_all add: respace_space_hd [OF assms])

lemma respace_hd:
  assumes "z \<noteq> []"
  shows "respace tok z \<noteq> [] \<and> hd (respace tok z) = hd z"
proof (cases z)
  case Nil
  with assms show ?thesis by simp
next
  case (Cons c cs)
  show ?thesis
  proof (cases "tok \<noteq> [] \<and> prefix tok (c # cs)")
    case True
    then have "hd tok = c" by (cases tok) auto
    with True Cons show ?thesis by (cases tok) (simp_all add: respace_match)
  next
    case False
    with Cons show ?thesis by (simp add: respace_step)
  qed
qed

lemma respace_start:
  "z = [] \<or> \<not> is_space (hd z) \<Longrightarrow> respace tok z = [] \<or> \<not> is_space (hd (respace tok z))"
  using respace_hd [of z tok] by (cases "z = []") auto

lemma respace_skip:
  "\<forall>i<length u. \<not> prefix tok (drop i (u @ y)) \<Longrightarrow> respace tok (u @ y) = u @ respace tok y"
proof (induction u)
  case Nil
  show ?case by simp
next
  case (Cons c u)
  have "\<not> prefix tok ((c # u) @ y)"
    using Cons.prems by (auto dest: spec [of _ 0])
  then have "respace tok ((c # u) @ y) = c # respace tok (u @ y)"
    by (simp add: respace_step)
  moreover have "\<forall>i<length u. \<not> prefix tok (drop i (u @ y))"
    using Cons.prems by (auto dest: spec [of _ "Suc i" for i])
  ultimately show ?case using Cons.IH by simp
qed

lemma respace_take: "take (length tok) (respace tok y) = take (length tok) y"
proof (induction tok y rule: respace.induct)
  case (1 tok)
  show ?case by simp
next
  case (2 tok c cs)
  show ?case
  proof (cases "tok \<noteq> [] \<and> prefix tok (c # cs)")
    case True
    then obtain r where r: "c # cs = tok @ r" by (auto simp: prefix_def)
    have "respace tok (tok @ r) = tok @ 0x20 # respace tok (dropWhile is_space r)"
      using True by (simp add: respace_prefix)
    then show ?thesis by (simp add: r)
  next
    case False
    then have eq: "respace tok (c # cs) = c # respace tok cs" by (rule respace_step)
    show ?thesis
    proof (cases tok)
      case Nil
      then show ?thesis by simp
    next
      case (Cons a as)
      from "2.IH"(2) [OF False] have "take (length as) (take (length tok) (respace tok cs))
          = take (length as) (take (length tok) cs)"
        by simp
      then have "take (length as) (respace tok cs) = take (length as) cs"
        by (simp add: Cons min_def)
      then show ?thesis unfolding eq by (simp add: Cons)
    qed
  qed
qed

lemma prefix_take: "prefix tok y \<longleftrightarrow> take (length tok) y = tok"
  by (metis append_take_drop_id prefix_def append_eq_conv_conj)

lemma respace_prefix_iff: "prefix tok (respace tok y) \<longleftrightarrow> prefix tok y"
  by (simp add: prefix_take respace_take)

lemma respace_idem:
  "respace tok (respace tok x) = respace tok x"
proof (induction tok x rule: respace.induct)
  case (1 tok)
  show ?case by simp
next
  case (2 tok c cs)
  show ?case
  proof (cases "tok \<noteq> [] \<and> prefix tok (c # cs)")
    case True
    let ?z = "dropWhile is_space (drop (length tok) (c # cs))"
    have eq: "respace tok (c # cs) = tok @ 0x20 # respace tok ?z"
      using True by (simp add: respace_match)
    have "respace tok ?z = [] \<or> \<not> is_space (hd (respace tok ?z))"
      by (rule respace_start) (rule dropWhile_starts)
    then have "dropWhile is_space (respace tok ?z) = respace tok ?z"
      by (rule dropWhile_start)
    moreover have "is_space 0x20" by (simp add: is_space_def)
    ultimately have "respace tok (tok @ 0x20 # respace tok ?z)
        = tok @ 0x20 # respace tok (respace tok ?z)"
      using True by (simp add: respace_prefix)
    with "2.IH"(1) [OF True] show ?thesis by (simp add: eq)
  next
    case False
    then have eq: "respace tok (c # cs) = c # respace tok cs" by (rule respace_step)
    have "\<not> (tok \<noteq> [] \<and> prefix tok (c # respace tok cs))"
      using False respace_prefix_iff [of tok "c # cs"] by (simp add: eq)
    then have "respace tok (c # respace tok cs) = c # respace tok (respace tok cs)"
      by (rule respace_step)
    with "2.IH"(2) [OF False] show ?thesis by (simp add: eq)
  qed
qed


lemma collapse_space: "is_space c \<Longrightarrow> collapse_ws (c # cs) = 0x20 # collapse_ws (dropWhile is_space cs)"
  by simp

lemma collapse_char: "\<not> is_space c \<Longrightarrow> collapse_ws (c # cs) = c # collapse_ws cs"
  by simp

declare collapse_ws.simps(2) [simp del]

lemma collapse_start:
  "z = [] \<or> \<not> is_space (hd z) \<Longrightarrow> collapse_ws z = [] \<or> \<not> is_space (hd (collapse_ws z))"
  by (cases z) (auto simp: collapse_char)

lemma collapse_idem: "collapse_ws (collapse_ws s) = collapse_ws s"
proof (induction s rule: collapse_ws.induct)
  case 1
  show ?case by simp
next
  case (2 c cs)
  show ?case
  proof (cases "is_space c")
    case True
    let ?z = "dropWhile is_space cs"
    have "dropWhile is_space (collapse_ws ?z) = collapse_ws ?z"
      by (rule dropWhile_start) (rule collapse_start, rule dropWhile_starts)
    with "2.IH"(1) [OF True] True show ?thesis by (simp add: collapse_space)
  next
    case False
    with "2.IH"(2) show ?thesis by (simp add: collapse_char)
  qed
qed

lemma collapse_fixed_space:
  assumes "collapse_ws (c # cs) = c # cs" and "is_space c"
  shows "c = 0x20 \<and> (cs = [] \<or> \<not> is_space (hd cs))"
proof -
  from assms have c: "c = 0x20" and eq: "collapse_ws (dropWhile is_space cs) = cs"
    by (simp_all add: collapse_space)
  have "collapse_ws (dropWhile is_space cs) = []
      \<or> \<not> is_space (hd (collapse_ws (dropWhile is_space cs)))"
    by (rule collapse_start) (rule dropWhile_starts)
  then have "cs = [] \<or> \<not> is_space (hd cs)" by (simp only: eq)
  with c show ?thesis by simp
qed

lemma collapse_fixed_tl:
  assumes "collapse_ws (c # cs) = c # cs"
  shows "collapse_ws cs = cs"
proof (cases "is_space c")
  case True
  from collapse_fixed_space [OF assms True] have "dropWhile is_space cs = cs"
    by (simp add: dropWhile_start)
  moreover from assms True have "collapse_ws (dropWhile is_space cs) = cs"
    by (simp add: collapse_space)
  ultimately show ?thesis by simp
next
  case False
  with assms show ?thesis by (simp add: collapse_char)
qed

lemma collapse_fixed_drop: "collapse_ws (u @ v) = u @ v \<Longrightarrow> collapse_ws v = v"
proof (induction u)
  case Nil
  then show ?case by simp
next
  case (Cons a u)
  from Cons.prems have "collapse_ws (a # (u @ v)) = a # (u @ v)" by simp
  then have "collapse_ws (u @ v) = u @ v" by (rule collapse_fixed_tl)
  then show ?case by (rule Cons.IH)
qed

lemma collapse_fixed_butlast: "collapse_ws (x @ [c]) = x @ [c] \<Longrightarrow> collapse_ws x = x"
proof (induction x)
  case Nil
  show ?case by simp
next
  case (Cons d ds)
  from Cons.prems have fixed: "collapse_ws (d # (ds @ [c])) = d # (ds @ [c])" by simp
  from collapse_fixed_tl [OF fixed] have ds: "collapse_ws ds = ds" by (rule Cons.IH)
  show ?case
  proof (cases "is_space d")
    case True
    from collapse_fixed_space [OF fixed True]
    have d: "d = 0x20" and st: "\<not> is_space (hd (ds @ [c]))" by simp_all
    have "ds = [] \<or> \<not> is_space (hd ds)" using st by (cases ds) simp_all
    then have "dropWhile is_space ds = ds" by (rule dropWhile_start)
    with True ds d show ?thesis by (simp add: collapse_space)
  next
    case False
    with ds show ?thesis by (simp add: collapse_char)
  qed
qed

lemma collapse_nonspace:
  "\<forall>c \<in> set u. \<not> is_space c \<Longrightarrow> collapse_ws (u @ v) = u @ collapse_ws v"
  by (induction u) (simp_all add: collapse_char)

lemma collapse_fixed_spaces:
  assumes "collapse_ws (z @ b) = z @ b" and "\<forall>c \<in> set b. is_space c"
  shows "b = [] \<or> b = [0x20]"
proof (cases b)
  case Nil
  then show ?thesis by simp
next
  case (Cons c b')
  from assms(1) have "collapse_ws b = b" by (rule collapse_fixed_drop)
  moreover from assms(2) Cons have "is_space c" and "dropWhile is_space b' = []" by simp_all
  ultimately show ?thesis using Cons by (simp add: collapse_space)
qed

lemma collapse_respace:
  "tok \<noteq> [] \<Longrightarrow> \<forall>c \<in> set tok. \<not> is_space c \<Longrightarrow> collapse_ws x = x \<Longrightarrow>
   collapse_ws (respace tok x) = respace tok x"
proof (induction tok x rule: respace.induct)
  case (1 tok)
  show ?case by simp
next
  case (2 tok c cs)
  show ?case
  proof (cases "tok \<noteq> [] \<and> prefix tok (c # cs)")
    case True
    then obtain r where r: "c # cs = tok @ r" by (auto simp: prefix_def)
    let ?z = "dropWhile is_space r"
    have eq: "respace tok (c # cs) = tok @ 0x20 # respace tok ?z"
      unfolding r using True by (simp add: respace_prefix)
    from "2.prems"(3) have "collapse_ws (tok @ r) = tok @ r" by (simp only: r)
    then have "collapse_ws r = r" using "2.prems"(2) by (simp add: collapse_nonspace)
    then have "collapse_ws (takeWhile is_space r @ ?z) = takeWhile is_space r @ ?z" by simp
    then have "collapse_ws ?z = ?z" by (rule collapse_fixed_drop)
    then have "collapse_ws (dropWhile is_space (drop (length tok) (c # cs)))
        = dropWhile is_space (drop (length tok) (c # cs))"
      by (simp add: r)
    from "2.IH"(1) [OF True "2.prems"(1,2) this]
    have ih: "collapse_ws (respace tok ?z) = respace tok ?z" by (simp add: r)
    have "respace tok ?z = [] \<or> \<not> is_space (hd (respace tok ?z))"
      by (rule respace_start) (rule dropWhile_starts)
    then have "dropWhile is_space (respace tok ?z) = respace tok ?z" by (rule dropWhile_start)
    with ih show ?thesis
      unfolding eq using "2.prems"(2) by (simp add: collapse_nonspace collapse_space)
  next
    case False
    then have eq: "respace tok (c # cs) = c # respace tok cs" by (rule respace_step)
    from "2.prems"(3) have "collapse_ws cs = cs" by (rule collapse_fixed_tl)
    from "2.IH"(2) [OF False "2.prems"(1,2) this]
    have ih: "collapse_ws (respace tok cs) = respace tok cs" .
    show ?thesis
    proof (cases "is_space c")
      case True
      from collapse_fixed_space [OF "2.prems"(3) True]
      have c: "c = 0x20" and "cs = [] \<or> \<not> is_space (hd cs)" by simp_all
      then have "respace tok cs = [] \<or> \<not> is_space (hd (respace tok cs))"
        by (simp add: respace_start)
      then have "dropWhile is_space (respace tok cs) = respace tok cs" by (rule dropWhile_start)
      with ih True c show ?thesis unfolding eq by (simp add: collapse_space)
    next
      case False
      with ih show ?thesis unfolding eq by (simp add: collapse_char)
    qed
  qed
qed


lemma apart_drop:
  "apart a b \<Longrightarrow> i < length b \<Longrightarrow> \<not> prefix a (drop i b @ y)"
proof (induction b arbitrary: i)
  case Nil
  then show ?case by simp
next
  case (Cons c cs)
  show ?case
  proof (cases i)
    case 0
    from Cons.prems(1) have "\<not> prefix a (c # cs)" and "\<not> prefix (c # cs) a" by simp_all
    have "\<not> prefix a ((c # cs) @ y)"
    proof
      assume "prefix a ((c # cs) @ y)"
      then have "prefix a (c # cs) \<or> (\<exists>us. a = (c # cs) @ us \<and> prefix us y)"
        by (simp only: prefix_append)
      with \<open>\<not> prefix a (c # cs)\<close> obtain us where "a = (c # cs) @ us" by blast
      then have "prefix (c # cs) a" by (simp only: prefixI)
      with \<open>\<not> prefix (c # cs) a\<close> show False by simp
    qed
    with 0 show ?thesis by simp
  next
    case (Suc j)
    with Cons.prems have "apart a cs" and "j < length cs" by simp_all
    then have "\<not> prefix a (drop j cs @ y)" by (rule Cons.IH)
    with Suc show ?thesis by simp
  qed
qed

lemma respace_over: "apart a b \<Longrightarrow> respace a (b @ y) = b @ respace a y"
proof (rule respace_skip, intro allI impI)
  fix i
  assume "apart a b" and "i < length b"
  then have "\<not> prefix a (drop i b @ y)" by (rule apart_drop)
  with \<open>i < length b\<close> show "\<not> prefix a (drop i (b @ y))" by simp
qed

lemma apart_no_infix:
  assumes "apart a b" and "a \<noteq> []"
  shows "\<not> prefix a (drop i b)"
proof (cases "i < length b")
  case True
  with assms(1) have "\<not> prefix a (drop i b @ [])" by (rule apart_drop)
  then show ?thesis by simp
next
  case False
  with assms(2) show ?thesis by simp
qed

lemma respace_pfx:
  "\<forall>i. \<not> prefix t (drop i p) \<Longrightarrow> prefix p (respace t y) \<longleftrightarrow> prefix p y"
proof (induction t y arbitrary: p rule: respace.induct)
  case (1 t)
  show ?case by simp
next
  case (2 t c cs)
  show ?case
  proof (cases "t \<noteq> [] \<and> prefix t (c # cs)")
    case True
    then obtain r where r: "c # cs = t @ r" by (auto simp: prefix_def)
    have np: "\<not> prefix t p" using "2.prems" [rule_format, of 0] by simp
    have *: "prefix p (t @ X) \<longleftrightarrow> prefix p t" for X
      using np by (auto simp: prefix_append)
    have "respace t (t @ r) = t @ 0x20 # respace t (dropWhile is_space r)"
      using True by (simp add: respace_prefix)
    then show ?thesis unfolding r by (simp only: *)
  next
    case False
    then have eq: "respace t (c # cs) = c # respace t cs" by (rule respace_step)
    show ?thesis
    proof (cases p)
      case Nil
      then show ?thesis by simp
    next
      case (Cons d p')
      have "\<forall>i. \<not> prefix t (drop i p')"
      proof
        fix i
        from "2.prems" [rule_format, of "Suc i"] Cons show "\<not> prefix t (drop i p')" by simp
      qed
      from "2.IH"(2) [OF False this] show ?thesis unfolding eq Cons by simp
    qed
  qed
qed

lemma respace_fixed_spaces:
  assumes "\<forall>c \<in> set tok. \<not> is_space c" and "respace tok r = r"
  shows "respace tok (dropWhile is_space r) = dropWhile is_space r"
proof -
  have "respace tok (takeWhile is_space r @ dropWhile is_space r)
      = takeWhile is_space r @ respace tok (dropWhile is_space r)"
    by (rule respace_spaces [OF assms(1)]) (auto dest: set_takeWhileD)
  then have "takeWhile is_space r @ respace tok (dropWhile is_space r) = respace tok r"
    by (simp only: takeWhile_dropWhile_id)
  also have "\<dots> = r" by (rule assms(2))
  also have "r = takeWhile is_space r @ dropWhile is_space r" by simp
  finally show ?thesis by (simp only: same_append_eq)
qed

lemma respace_keeps_fixed:
  assumes t: "t \<noteq> []" "\<forall>c \<in> set t. \<not> is_space c"
    and t': "t' \<noteq> []" "\<forall>c \<in> set t'. \<not> is_space c"
    and ap: "apart t' t" "apart t t'"
  shows "respace t' x = x \<Longrightarrow> respace t' (respace t x) = respace t x"
proof (induction "length x" arbitrary: x rule: less_induct)
  case less
  show ?case
  proof (cases x)
    case Nil
    then show ?thesis by simp
  next
    case (Cons c cs)
    show ?thesis
    proof (cases "prefix t x")
      case True
      then obtain r where r: "x = t @ r" by (auto simp: prefix_def)
      let ?z = "dropWhile is_space r"
      have eq: "respace t x = t @ 0x20 # respace t ?z"
        unfolding r using t(1) by (rule respace_prefix)
      from less.prems have "t @ respace t' r = t @ r"
        unfolding r by (simp only: respace_over [OF ap(1)])
      then have "respace t' r = r" by simp
      with t'(2) have "respace t' ?z = ?z" by (rule respace_fixed_spaces)
      moreover have "length ?z < length x"
      proof -
        from t(1) have "0 < length t" by simp
        moreover have "length x = length t + length r" by (simp add: r)
        ultimately show ?thesis using length_dropWhile_le [of is_space r] by linarith
      qed
      ultimately have "respace t' (respace t ?z) = respace t ?z" by (rule less.hyps [rotated])
      then show ?thesis
        unfolding eq by (simp add: respace_over [OF ap(1)] respace_space_hd [OF t'(2)])
    next
      case nt: False
      then have eq: "respace t x = c # respace t cs"
        unfolding Cons by (simp add: respace_step)
      show ?thesis
      proof (cases "prefix t' x")
        case True
        then obtain r where r: "x = t' @ r" by (auto simp: prefix_def)
        let ?z = "dropWhile is_space r"
        from less.prems have "t' @ 0x20 # respace t' ?z = t' @ r"
          unfolding r using t'(1) by (simp add: respace_prefix)
        then have rr: "r = 0x20 # respace t' ?z" by simp
        have st: "respace t' ?z = [] \<or> \<not> is_space (hd (respace t' ?z))"
          by (rule respace_start) (rule dropWhile_starts)
        define r1 where "r1 = respace t' ?z"
        from rr have r_eq: "r = 0x20 # r1" by (simp add: r1_def)
        from st have st1: "r1 = [] \<or> \<not> is_space (hd r1)" by (simp add: r1_def)
        then have "dropWhile is_space r1 = r1" by (rule dropWhile_start)
        then have "?z = r1" by (simp add: r_eq)
        then have fixed: "respace t' r1 = r1" using r1_def by simp
        have "length r1 < length x" by (simp add: r r_eq)
        with fixed have ih: "respace t' (respace t r1) = respace t r1" by (rule less.hyps [rotated])
        have out: "respace t x = t' @ 0x20 # respace t r1"
          unfolding r r_eq by (simp add: respace_over [OF ap(2)] respace_space_hd [OF t(2)])
        from st1 have "respace t r1 = [] \<or> \<not> is_space (hd (respace t r1))" by (rule respace_start)
        then have "dropWhile is_space (respace t r1) = respace t r1" by (rule dropWhile_start)
        with ih show ?thesis
          unfolding out using t'(1) by (simp add: respace_prefix)
      next
        case False
        with less.prems have "respace t' cs = cs" unfolding Cons by (simp add: respace_step)
        moreover have "length cs < length x" by (simp add: Cons)
        ultimately have ih: "respace t' (respace t cs) = respace t cs" by (rule less.hyps [rotated])
        have "\<forall>i. \<not> prefix t (drop i t')" using apart_no_infix [OF ap(2) t(1)] by simp
        then have "prefix t' (respace t x) \<longleftrightarrow> prefix t' x" by (rule respace_pfx)
        with False have "\<not> prefix t' (c # respace t cs)" by (simp add: eq)
        then have "respace t' (c # respace t cs) = c # respace t' (respace t cs)"
          by (simp add: respace_step)
        with ih show ?thesis unfolding eq by simp
      qed
    qed
  qed
qed


lemma respace_fixed_end:
  assumes tok: "tok \<noteq> []" "\<forall>c \<in> set tok. \<not> is_space c"
  shows "respace tok (z @ [0x20]) = z @ [0x20] \<Longrightarrow>
    respace tok z = z \<or> respace tok z = z @ [0x20]"
proof (induction "length z" arbitrary: z rule: less_induct)
  case less
  show ?case
  proof (cases z)
    case Nil
    then show ?thesis by simp
  next
    case (Cons c cs)
    show ?thesis
    proof (cases "prefix tok z")
      case True
      then obtain r where r: "z = tok @ r" by (auto simp: prefix_def)
      from less.prems have "respace tok (tok @ (r @ [0x20])) = tok @ (r @ [0x20])"
        by (simp add: r)
      then have rr: "r @ [0x20] = 0x20 # respace tok (dropWhile is_space (r @ [0x20]))"
        using tok(1) by (simp add: respace_prefix)
      show ?thesis
      proof (cases r)
        case Nil
        then show ?thesis using tok(1) respace_prefix [of tok "[]"] by (simp add: r)
      next
        case (Cons d r')
        let ?w = "r' @ [0x20]"
        from rr Cons have d: "d = 0x20" by simp
        from rr have w: "?w = respace tok (dropWhile is_space ?w)"
          unfolding Cons d by simp
        have "respace tok (dropWhile is_space ?w) = []
            \<or> \<not> is_space (hd (respace tok (dropWhile is_space ?w)))"
          by (rule respace_start) (rule dropWhile_starts)
        then have st: "?w = [] \<or> \<not> is_space (hd ?w)" by (simp only: w [symmetric])
        then have dw: "dropWhile is_space ?w = ?w" by (rule dropWhile_start)
        from st have "r' = [] \<or> \<not> is_space (hd r')" by (cases r') simp_all
        then have dr: "dropWhile is_space r' = r'" by (rule dropWhile_start)
        from w dw have "respace tok ?w = ?w" by simp
        moreover have "length r' < length z" by (simp add: r Cons)
        ultimately have "respace tok r' = r' \<or> respace tok r' = r' @ [0x20]"
          by (rule less.hyps [rotated])
        moreover have "respace tok z = tok @ 0x20 # respace tok r'"
          unfolding r Cons d using tok(1) dr by (simp add: respace_prefix)
        ultimately show ?thesis by (auto simp: r Cons d)
      qed
    next
      case False
      have "\<not> prefix tok (z @ [0x20])"
      proof
        assume "prefix tok (z @ [0x20])"
        then have "prefix tok z \<or> (\<exists>us. tok = z @ us \<and> prefix us [0x20])"
          by (simp only: prefix_append)
        with False obtain us where us: "tok = z @ us" "prefix us [0x20]" by blast
        from us(2) have "us = [] \<or> us = [0x20]" by (cases us) simp_all
        then show False
        proof
          assume "us = []"
          with us(1) False show False by simp
        next
          assume "us = [0x20]"
          with us(1) have "0x20 \<in> set tok" by simp
          with tok(2) show False by auto
        qed
      qed
      then have "respace tok (c # (cs @ [0x20])) = c # respace tok (cs @ [0x20])"
        unfolding Cons by (simp add: respace_step)
      with less.prems have "respace tok (cs @ [0x20]) = cs @ [0x20]" by (simp add: Cons)
      moreover have "length cs < length z" by (simp add: Cons)
      ultimately have "respace tok cs = cs \<or> respace tok cs = cs @ [0x20]"
        by (rule less.hyps [rotated])
      moreover from False have "respace tok z = c # respace tok cs"
        unfolding Cons by (simp add: respace_step)
      ultimately show ?thesis by (auto simp: Cons)
    qed
  qed
qed

lemma fold_respace_fixed: "\<forall>t \<in> set ts. respace t z = z \<Longrightarrow> fold respace ts z = z"
  by (induction ts) simp_all

lemma fold_respace_end:
  "\<forall>t \<in> set ts. t \<noteq> [] \<and> (\<forall>c \<in> set t. \<not> is_space c) \<and> respace t (z @ [0x20]) = z @ [0x20] \<Longrightarrow>
   w = z \<or> w = z @ [0x20] \<Longrightarrow>
   fold respace ts w = z \<or> fold respace ts w = z @ [0x20]"
proof (induction ts arbitrary: w)
  case Nil
  then show ?case by simp
next
  case (Cons t ts)
  from Cons.prems(1) have t: "t \<noteq> []" "\<forall>c \<in> set t. \<not> is_space c"
    and fixed: "respace t (z @ [0x20]) = z @ [0x20]" by simp_all
  from respace_fixed_end [OF t fixed] Cons.prems(2) fixed
  have "respace t w = z \<or> respace t w = z @ [0x20]" by auto
  moreover from Cons.prems(1) have "\<forall>t \<in> set ts. t \<noteq> [] \<and> (\<forall>c \<in> set t. \<not> is_space c)
      \<and> respace t (z @ [0x20]) = z @ [0x20]" by simp
  ultimately have "fold respace ts (respace t w) = z \<or> fold respace ts (respace t w) = z @ [0x20]"
    by (rule Cons.IH [rotated])
  then show ?case by simp
qed

lemma fold_respace_collapse:
  "\<forall>t \<in> set ts. t \<noteq> [] \<and> (\<forall>c \<in> set t. \<not> is_space c) \<Longrightarrow> collapse_ws x = x \<Longrightarrow>
   collapse_ws (fold respace ts x) = fold respace ts x"
proof (induction ts arbitrary: x)
  case Nil
  then show ?case by simp
next
  case (Cons t ts)
  from Cons.prems have "collapse_ws (respace t x) = respace t x"
    by (simp add: collapse_respace)
  moreover from Cons.prems(1) have "\<forall>t \<in> set ts. t \<noteq> [] \<and> (\<forall>c \<in> set t. \<not> is_space c)" by simp
  ultimately have "collapse_ws (fold respace ts (respace t x)) = fold respace ts (respace t x)"
    by (rule Cons.IH [rotated])
  then show ?case by simp
qed

lemma fold_respace_all_fixed:
  "\<forall>t \<in> set ts. t \<noteq> [] \<and> (\<forall>c \<in> set t. \<not> is_space c) \<Longrightarrow>
   \<forall>a \<in> set ts. \<forall>b \<in> set ts. a \<noteq> b \<longrightarrow> apart a b \<Longrightarrow>
   \<forall>t \<in> set ts. respace t (fold respace ts x) = fold respace ts x"
proof (induction ts rule: rev_induct)
  case Nil
  show ?case by simp
next
  case (snoc t ts)
  let ?y = "fold respace ts x"
  from snoc.prems(1) have plain: "\<forall>t \<in> set ts. t \<noteq> [] \<and> (\<forall>c \<in> set t. \<not> is_space c)"
    and t: "t \<noteq> []" "\<forall>c \<in> set t. \<not> is_space c" by simp_all
  from snoc.prems(2) have "\<forall>a \<in> set ts. \<forall>b \<in> set ts. a \<noteq> b \<longrightarrow> apart a b" by simp
  with plain have ih: "\<forall>t \<in> set ts. respace t ?y = ?y" by (rule snoc.IH)
  have "respace t' (respace t ?y) = respace t ?y" if "t' \<in> set (ts @ [t])" for t'
  proof (cases "t' = t")
    case True
    then show ?thesis by (simp add: respace_idem)
  next
    case False
    with that have mem: "t' \<in> set ts" by simp
    with plain have t': "t' \<noteq> []" "\<forall>c \<in> set t'. \<not> is_space c" by simp_all
    from snoc.prems(2) mem False have ap: "apart t' t" "apart t t'" by auto
    from ih mem have "respace t' ?y = ?y" by simp
    with t t' ap show ?thesis by (rule respace_keeps_fixed)
  qed
  then show ?case by simp
qed

lemma norm_tokens_plain: "\<forall>t \<in> set norm_tokens. t \<noteq> [] \<and> (\<forall>c \<in> set t. \<not> is_space c)"
  by (simp add: norm_tokens_def asc_def paragraph_sign_def is_space_def)

lemma norm_tokens_apart: "\<forall>a \<in> set norm_tokens. \<forall>b \<in> set norm_tokens. a \<noteq> b \<longrightarrow> apart a b"
  by (simp add: norm_tokens_def asc_def paragraph_sign_def)

lemma normalizeNorm_fold: "normalizeNorm s = trim (fold respace norm_tokens (collapse_ws s))"
  by (simp add: normalizeNorm_def norm_tokens_def)

lemma trim_idem: "trim (trim s) = trim s"
proof (cases "trim s = []")
  case True
  then show ?thesis by (simp add: trim_def [of "[]"])
next
  case False
  then have "\<not> is_space (hd (trim s))" by (rule trim_hd)
  then have "dropWhile is_space (trim s) = trim s" by (simp add: dropWhile_start)
  moreover have "dropWhile is_space (rev (trim s)) = rev (trim s)"
    unfolding trim_def rev_rev_ident by (rule dropWhile_idem)
  ultimately have "rev (dropWhile is_space (rev (dropWhile is_space (trim s)))) = trim s"
    by simp
  then show ?thesis by (simp only: trim_def [of "trim s"])
qed

lemma trim_snoc_space: "is_space c \<Longrightarrow> trim (x @ [c]) = trim x"
proof (cases "\<forall>a \<in> set x. is_space a")
  case True
  assume "is_space c"
  with True have "dropWhile is_space (x @ [c]) = []" and "dropWhile is_space x = []"
    by simp_all
  then show ?thesis by (simp only: trim_def)
next
  case False
  assume c: "is_space c"
  from False obtain a where "a \<in> set x" "\<not> is_space a" by blast
  then have "dropWhile is_space (x @ [c]) = dropWhile is_space x @ [c]"
    by (rule dropWhile_append1)
  with c show ?thesis by (simp add: trim_def)
qed

text \<open>
  C5. Norm canonicalization is idempotent: for every string \<open>x\<close>,
  \<^verbatim>\<open>normalizeNorm(normalizeNorm(x))\<close> equals \<^verbatim>\<open>normalizeNorm(x)\<close>. The canonical form has
  single spaces only, every token in it is followed by exactly one space, and trimming takes
  away at most the space after a final token, which the second pass puts back and trims again.
\<close>

theorem normalizeNorm_idempotent: "normalizeNorm (normalizeNorm x) = normalizeNorm x"
proof -
  define y where "y = fold respace norm_tokens (collapse_ws x)"
  define z where "z = trim y"
  define b where "b = rev (takeWhile is_space (rev (dropWhile is_space y)))"
  have cy: "collapse_ws y = y"
    unfolding y_def by (rule fold_respace_collapse [OF norm_tokens_plain collapse_idem])
  have fy: "\<forall>t \<in> set norm_tokens. respace t y = y"
    unfolding y_def by (rule fold_respace_all_fixed [OF norm_tokens_plain norm_tokens_apart])
  have split: "dropWhile is_space y = z @ b"
    unfolding z_def b_def by (rule trim_split)
  from cy have "collapse_ws (takeWhile is_space y @ dropWhile is_space y)
      = takeWhile is_space y @ dropWhile is_space y" by simp
  then have "collapse_ws (dropWhile is_space y) = dropWhile is_space y"
    by (rule collapse_fixed_drop)
  then have czb: "collapse_ws (z @ b) = z @ b" by (simp only: split)
  have fzb: "\<forall>t \<in> set norm_tokens. respace t (z @ b) = z @ b"
  proof
    fix t
    assume mem: "t \<in> set norm_tokens"
    with norm_tokens_plain have "\<forall>c \<in> set t. \<not> is_space c" by simp
    moreover from fy mem have "respace t y = y" by simp
    ultimately have "respace t (dropWhile is_space y) = dropWhile is_space y"
      by (rule respace_fixed_spaces)
    then show "respace t (z @ b) = z @ b" by (simp only: split)
  qed
  have "\<forall>c \<in> set b. is_space c" unfolding b_def by (auto dest: set_takeWhileD)
  with czb have "b = [] \<or> b = [0x20]" by (rule collapse_fixed_spaces)
  then have "trim (fold respace norm_tokens (collapse_ws z)) = z"
  proof
    assume "b = []"
    with czb fzb have "collapse_ws z = z" and "\<forall>t \<in> set norm_tokens. respace t z = z"
      by simp_all
    then have "fold respace norm_tokens (collapse_ws z) = z" by (simp add: fold_respace_fixed)
    then show ?thesis by (simp add: z_def trim_idem)
  next
    assume b: "b = [0x20]"
    from czb have cz: "collapse_ws z = z" unfolding b by (rule collapse_fixed_butlast)
    from norm_tokens_plain fzb
    have "\<forall>t \<in> set norm_tokens. t \<noteq> [] \<and> (\<forall>c \<in> set t. \<not> is_space c)
        \<and> respace t (z @ [0x20]) = z @ [0x20]"
      by (simp add: b)
    then have "fold respace norm_tokens z = z \<or> fold respace norm_tokens z = z @ [0x20]"
      by (rule fold_respace_end) simp
    then have "trim (fold respace norm_tokens z) = trim z"
      by (auto simp: trim_snoc_space)
    then show ?thesis unfolding cz by (simp add: z_def trim_idem)
  qed
  then show ?thesis by (simp add: normalizeNorm_fold y_def z_def)
qed

end
